theory Spec2Isabelle
  imports Complex_Main "HOL-Library.Char_ord" "HOL-Library.List_Lexorder"
    "HOL-Library.Log_Nat" "HOL-Library.Multiset"
begin

section \<open>Python values used by plot\_topdown.py\<close>

text \<open>
  A Python \<^verbatim>\<open>str\<close> is modelled as an Isabelle \<^typ>\<open>string\<close>: every character is a
  code point below 256. Comparison of strings (\<^verbatim>\<open>sorted\<close>) is the lexicographic order on
  code points, which is the order of \<^typ>\<open>char list\<close> here.
\<close>

subsection \<open>Exceptions\<close>

text \<open>
  The subclasses of \<^verbatim>\<open>Exception\<close> that the calls of the script can raise. Asynchronous
  interrupts (\<^verbatim>\<open>KeyboardInterrupt\<close>) are outside the model.
\<close>

datatype exn =
    OSError string
  | UnicodeDecodeError
  | ValueError
  | IndexError
  | KeyError string
  | ZeroDivisionError

subsection \<open>Floats\<close>

text \<open>
  An IEEE 754 binary64 value: a finite double is the rational it denotes (the sign of zero
  is not kept). \<open>round_double\<close> rounds a rational to the nearest double, ties to even, and
  overflows to an infinity, as \<^verbatim>\<open>float()\<close>, \<^verbatim>\<open>+\<close> and \<^verbatim>\<open>/\<close> do.
\<close>

datatype pyfloat = Fin rat | PInf | NInf | NaN

definition pow2 :: "int \<Rightarrow> rat" where
  "pow2 e = (if 0 \<le> e then 2 ^ nat e else 1 / 2 ^ nat (- e))"

definition ilog2 :: "rat \<Rightarrow> int" where
  "ilog2 q = (case quotient_of q of (a, b) \<Rightarrow>
     let d = bitlen a - bitlen b in if pow2 d \<le> q then d else d - 1)"

definition round_half_even :: "rat \<Rightarrow> int" where
  "round_half_even q =
     (let f = \<lfloor>q\<rfloor>; d = q - of_int f
      in if d < 1 / 2 then f else if 1 / 2 < d then f + 1 else if even f then f else f + 1)"

definition round_double :: "rat \<Rightarrow> pyfloat" where
  "round_double q =
     (if q = 0 then Fin 0
      else let a = \<bar>q\<bar>;
               e = max (ilog2 a) (- 1022);
               ulp = pow2 (e - 52);
               r = of_int (round_half_even (a / ulp)) * ulp
           in if pow2 1024 \<le> r then (if 0 < q then PInf else NInf)
              else Fin (if 0 < q then r else - r))"

fun float_add :: "pyfloat \<Rightarrow> pyfloat \<Rightarrow> pyfloat" where
  "float_add (Fin a) (Fin b) = round_double (a + b)"
| "float_add NaN _ = NaN"
| "float_add _ NaN = NaN"
| "float_add PInf NInf = NaN"
| "float_add NInf PInf = NaN"
| "float_add PInf _ = PInf"
| "float_add _ PInf = PInf"
| "float_add NInf _ = NInf"
| "float_add _ NInf = NInf"

subsection \<open>Character classes of \<^verbatim>\<open>re\<close> and \<^verbatim>\<open>float\<close>\<close>

text \<open>
  \<^verbatim>\<open>\s\<close> on a \<^verbatim>\<open>str\<close> pattern: the code points below 256 that Python counts as
  whitespace. \<^verbatim>\<open>\d\<close>: the decimal digits, which below 256 are \<^verbatim>\<open>0\<close> to \<^verbatim>\<open>9\<close>.
\<close>

definition is_space :: "char \<Rightarrow> bool" where
  "is_space c =
     (let n = (of_char c :: nat)
      in (9 \<le> n \<and> n \<le> 13) \<or> (28 \<le> n \<and> n \<le> 32) \<or> n = 133 \<or> n = 160)"

definition is_digit :: "char \<Rightarrow> bool" where
  "is_digit c = (let n = (of_char c :: nat) in 48 \<le> n \<and> n \<le> 57)"

definition digit_or_dot :: "char \<Rightarrow> bool" where
  "digit_or_dot c = (is_digit c \<or> c = CHR ''.'')"

definition digit_val :: "char \<Rightarrow> nat" where
  "digit_val c = of_char c - 48"

definition nat_of_digits :: "string \<Rightarrow> nat" where
  "nat_of_digits s = foldl (\<lambda>acc c. 10 * acc + digit_val c) 0 s"

text \<open>
  \<^verbatim>\<open>float(s)\<close> for a string of digits and dots, the only strings the script passes to it:
  digits with at most one dot and at least one digit are a literal, anything else raises
  \<^verbatim>\<open>ValueError\<close>.
\<close>

definition py_float :: "string \<Rightarrow> exn + pyfloat" where
  "py_float s =
     (let ip = takeWhile is_digit s
      in case dropWhile is_digit s of
           [] \<Rightarrow> if ip = [] then Inl ValueError
                 else Inr (round_double (of_nat (nat_of_digits ip)))
         | c # fp \<Rightarrow>
             if c = CHR ''.'' \<and> list_all is_digit fp \<and> (ip \<noteq> [] \<or> fp \<noteq> [])
             then Inr (round_double (of_nat (nat_of_digits (ip @ fp)) / 10 ^ length fp))
             else Inl ValueError)"

subsection \<open>The regular expression\<close>

text \<open>
  The pattern \<^verbatim>\<open>Back-End Bound:\s+([\d.]+)%\<close> is a sequence of literals and greedy
  one-or-more repeats of a character class, one of them a capturing group. \<open>match_here\<close>
  is the backtracking matcher of \<^verbatim>\<open>re\<close> on such sequences: a repeat takes the longest
  run first and gives characters back one at a time until the rest of the pattern matches.
  It returns the captured groups. \<open>re_search\<close> tries every start position from the left.
\<close>

datatype node = Literal char | Plus "char \<Rightarrow> bool" | Group_Plus "char \<Rightarrow> bool"

fun first_some :: "'a option list \<Rightarrow> 'a option" where
  "first_some [] = None"
| "first_some (None # xs) = first_some xs"
| "first_some (Some x # xs) = Some x"

fun match_here :: "node list \<Rightarrow> string \<Rightarrow> string list option" where
  "match_here [] s = Some []"
| "match_here (Literal c # r) s =
     (case s of [] \<Rightarrow> None | d # t \<Rightarrow> if d = c then match_here r t else None)"
| "match_here (Plus p # r) s =
     first_some (map (\<lambda>n. match_here r (drop n s))
       (rev [1..<Suc (length (takeWhile p s))]))"
| "match_here (Group_Plus p # r) s =
     first_some (map (\<lambda>n. map_option ((#) (take n s)) (match_here r (drop n s)))
       (rev [1..<Suc (length (takeWhile p s))]))"

fun re_search :: "node list \<Rightarrow> string \<Rightarrow> string list option" where
  "re_search pat [] = match_here pat []"
| "re_search pat (c # s) =
     (case match_here pat (c # s) of Some gs \<Rightarrow> Some gs | None \<Rightarrow> re_search pat s)"

definition backend_pattern :: "node list" where
  "backend_pattern =
     map Literal ''Back-End Bound:'' @ [Plus is_space, Group_Plus digit_or_dot, Literal CHR ''%'']"


section \<open>The environment and the effects of a run\<close>

text \<open>
  What the script reads: \<^verbatim>\<open>sys.argv\<close> (never empty when the file is run as a script), the
  value of \<^verbatim>\<open>os.path.expanduser("~/Topdown/crono-results")\<close>, and the file system through
  \<^verbatim>\<open>os.path.exists\<close>, \<^verbatim>\<open>os.path.isdir\<close>, \<^verbatim>\<open>os.listdir\<close> and
  \<^verbatim>\<open>open(path, 'r')\<close> followed by \<^verbatim>\<open>read()\<close>. The four are independent functions
  of the path: a read may raise although the path exists.
\<close>

record env =
  argv0 :: string
  args :: "string list"
  expanduser_default :: string
  path_exists :: "string \<Rightarrow> bool"
  path_isdir :: "string \<Rightarrow> bool"
  listdir :: "string \<Rightarrow> exn + string list"
  read_text :: "string \<Rightarrow> exn + string"

definition sys_argv :: "env \<Rightarrow> string list" where
  "sys_argv e = argv0 e # args e"

text \<open>\<^verbatim>\<open>os.path.join(a, b)\<close> of \<^verbatim>\<open>posixpath\<close>.\<close>

definition path_join :: "string \<Rightarrow> string \<Rightarrow> string" where
  "path_join a b =
     (if take 1 b = ''/'' then b
      else if a = [] \<or> last a = CHR ''/'' then a @ b
      else a @ ''/'' @ b)"

text \<open>
  A printed line is the template of the \<^verbatim>\<open>print\<close> call with the values it interpolates;
  the formatting of a float into characters is not modelled.
\<close>

datatype line =
    Error_reading string exn
  | Dir_not_found string
  | Usage string
  | Found string pyfloat
  | No_data
  | Summary_title
  | Table_header
  | Rule
  | Row string pyfloat
  | Average_row pyfloat
  | Saved_title
  | Saved_file string

text \<open>
  The matplotlib calls, in the order the script makes them. Bar and tick positions are
  kept as the index \<open>i\<close> of \<^verbatim>\<open>i * bar_spacing\<close>, the separator as the factor
  \<^verbatim>\<open>len(apps) - 1.5\<close> of \<^verbatim>\<open>bar_spacing\<close>. What matplotlib does with a call is not
  part of the model.
\<close>

datatype plt_call =
    Figure
  | Rc_params_update
  | Gca
  | Grid
  | Bar "nat list" "pyfloat list"
  | Axvline rat
  | Set_xticks "nat list"
  | Set_xticklabels "string list"
  | Subplots_adjust
  | Yticks
  | Ylabel
  | Ylim pyfloat pyfloat
  | Set_major_formatter
  | Spine_set_visible string
  | Spine_set_color string
  | Spine_set_linewidth string
  | Tight_layout
  | Savefig string
  | Show

datatype event =
    Os_exists string
  | Os_isdir string
  | Os_listdir string
  | Open_read string
  | Print line
  | Plt plt_call

datatype status = Returned | Sys_exit nat | Uncaught exn

section \<open>extract\_backend\_bound\<close>

text \<open>
  \<open>try_body\<close> is the block under \<^verbatim>\<open>try\<close> (lines 21 to 26): \<open>Inl\<close> is an exception
  raised in it, \<open>Inr (Some v)\<close> the \<^verbatim>\<open>return float(...)\<close>, \<open>Inr None\<close> falling out of the
  block. \<^verbatim>\<open>match.group(1)\<close> is the first captured group.
\<close>

definition group1 :: "string list \<Rightarrow> exn + string" where
  "group1 gs = (case gs of [] \<Rightarrow> Inl IndexError | g # _ \<Rightarrow> Inr g)"

definition try_body :: "env \<Rightarrow> string \<Rightarrow> exn + pyfloat option" where
  "try_body e summary_file =
     (case read_text e summary_file of
        Inl x \<Rightarrow> Inl x
      | Inr content \<Rightarrow>
          (case re_search backend_pattern content of
             None \<Rightarrow> Inr None
           | Some gs \<Rightarrow>
               (case group1 gs of
                  Inl x \<Rightarrow> Inl x
                | Inr g \<Rightarrow> (case py_float g of Inl x \<Rightarrow> Inl x | Inr v \<Rightarrow> Inr (Some v)))))"

definition extract_backend_bound :: "env \<Rightarrow> string \<Rightarrow> event list \<times> pyfloat option" where
  "extract_backend_bound e summary_file =
     (case try_body e summary_file of
        Inl x \<Rightarrow> ([Open_read summary_file, Print (Error_reading summary_file x)], None)
      | Inr r \<Rightarrow> ([Open_read summary_file], r))"

section \<open>get\_full\_app\_name\<close>

definition name_map :: "(string \<times> string) list" where
  "name_map =
     [(''bfs_gnutella31'', ''breadth first search''),
      (''dfs_gnutella31'', ''depth first search''),
      (''pr_gnutella31'', ''pagerank''),
      (''tc_gnutella31'', ''triangle counting''),
      (''sssp_ego_fb'', ''single source shortest path'')]"

definition get_full_app_name :: "string \<Rightarrow> string" where
  "get_full_app_name app = (case map_of name_map app of None \<Rightarrow> app | Some full \<Rightarrow> full)"


section \<open>main\<close>

subsection \<open>Dictionaries, lists and float arithmetic of the interpreter\<close>

text \<open>
  A \<^verbatim>\<open>dict\<close> keeps its keys in insertion order: assigning to a key it has replaces the
  value in place, assigning to a new key appends the entry.
\<close>

type_synonym dict = "(string \<times> pyfloat) list"

fun dict_set :: "dict \<Rightarrow> string \<Rightarrow> pyfloat \<Rightarrow> dict" where
  "dict_set [] k v = [(k, v)]"
| "dict_set ((k', v') # d) k v = (if k' = k then (k, v) # d else (k', v') # dict_set d k v)"

definition dict_get :: "dict \<Rightarrow> string \<Rightarrow> exn + pyfloat" where
  "dict_get d k = (case map_of d k of None \<Rightarrow> Inl (KeyError k) | Some v \<Rightarrow> Inr v)"

definition getitem :: "'a list \<Rightarrow> nat \<Rightarrow> exn + 'a" where
  "getitem xs i = (if i < length xs then Inr (xs ! i) else Inl IndexError)"

text \<open>A comprehension or loop whose body may raise stops at the first exception.\<close>

fun mapE :: "('a \<Rightarrow> exn + 'b) \<Rightarrow> 'a list \<Rightarrow> exn + 'b list" where
  "mapE f [] = Inr []"
| "mapE f (x # xs) =
     (case f x of
        Inl e \<Rightarrow> Inl e
      | Inr y \<Rightarrow> (case mapE f xs of Inl e \<Rightarrow> Inl e | Inr ys \<Rightarrow> Inr (y # ys)))"

text \<open>
  \<^verbatim>\<open>sum(values)\<close> adds from the left, starting at \<^verbatim>\<open>0\<close> (CPython from 3.12 on also
  carries the rounding errors along and adds them at the end; the properties below speak of
  \<open>py_sum\<close> as a whole and do not depend on it); \<^verbatim>\<open>x / n\<close> divides a float by an
  \<^verbatim>\<open>int\<close>; \<^verbatim>\<open>max(values)\<close> keeps the first largest element and raises on an empty list.
\<close>

definition py_sum :: "pyfloat list \<Rightarrow> pyfloat" where
  "py_sum vs = foldl float_add (Fin 0) vs"

fun float_div :: "pyfloat \<Rightarrow> nat \<Rightarrow> pyfloat" where
  "float_div (Fin a) n = round_double (a / of_nat n)"
| "float_div PInf n = PInf"
| "float_div NInf n = NInf"
| "float_div NaN n = NaN"

definition py_truediv :: "pyfloat \<Rightarrow> nat \<Rightarrow> exn + pyfloat" where
  "py_truediv x n = (if n = 0 then Inl ZeroDivisionError else Inr (float_div x n))"

fun float_less :: "pyfloat \<Rightarrow> pyfloat \<Rightarrow> bool" where
  "float_less (Fin a) (Fin b) = (a < b)"
| "float_less NaN _ = False"
| "float_less _ NaN = False"
| "float_less _ NInf = False"
| "float_less PInf _ = False"
| "float_less NInf _ = True"
| "float_less _ PInf = True"

definition py_max :: "pyfloat list \<Rightarrow> exn + pyfloat" where
  "py_max vs =
     (case vs of
        [] \<Rightarrow> Inl ValueError
      | v # rest \<Rightarrow> Inr (foldl (\<lambda>m x. if float_less m x then x else m) v rest))"

subsection \<open>The loop over the subdirectories (lines 60 to 71)\<close>

definition summary_path :: "string \<Rightarrow> string \<Rightarrow> string" where
  "summary_path base_dir app_dir =
     path_join (path_join base_dir app_dir) (app_dir @ ''_topdown_summary.txt'')"

definition emit :: "event list \<Rightarrow> event list \<times> dict \<Rightarrow> event list \<times> dict" where
  "emit t r = (t @ fst r, snd r)"

fun scan :: "env \<Rightarrow> string \<Rightarrow> string list \<Rightarrow> dict \<Rightarrow> event list \<times> dict" where
  "scan e base_dir [] apps_data = ([], apps_data)"
| "scan e base_dir (app_dir # rest) apps_data =
     (let app_path = path_join base_dir app_dir
      in if \<not> path_isdir e app_path
         then emit [Os_isdir app_path] (scan e base_dir rest apps_data)
         else
           let summary_file = path_join app_path (app_dir @ ''_topdown_summary.txt'')
           in if path_exists e summary_file
              then (case extract_backend_bound e summary_file of
                      (t, None) \<Rightarrow>
                        emit ([Os_isdir app_path, Os_exists summary_file] @ t)
                          (scan e base_dir rest apps_data)
                    | (t, Some backend_bound) \<Rightarrow>
                        emit ([Os_isdir app_path, Os_exists summary_file] @ t
                                @ [Print (Found app_dir backend_bound)])
                          (scan e base_dir rest (dict_set apps_data app_dir backend_bound)))
              else emit [Os_isdir app_path, Os_exists summary_file]
                     (scan e base_dir rest apps_data))"

subsection \<open>The summary (lines 78 to 99)\<close>

definition average_label :: string where
  "average_label = ''$'' @ [CHR 0x5C] @ ''mathbf{Average}$''"

record summary =
  apps :: "string list"
  values' :: "pyfloat list"
  average_value :: pyfloat
  apps_labels :: "string list"

definition summarise :: "dict \<Rightarrow> exn + summary" where
  "summarise apps_data =
     (let apps0 = sort (map fst apps_data)
      in case mapE (dict_get apps_data) apps0 of
           Inl x \<Rightarrow> Inl x
         | Inr values0 \<Rightarrow>
             (case py_truediv (py_sum values0) (length values0) of
                Inl x \<Rightarrow> Inl x
              | Inr avg \<Rightarrow>
                  let apps1 = apps0 @ [''Average''];
                      values1 = values0 @ [avg]
                  in Inr \<lparr>apps = apps1, values' = values1, average_value = avg,
                          apps_labels = map get_full_app_name (butlast apps1) @ [average_label]\<rparr>))"

text \<open>
  The printing loop and the chart stop at the first exception; what was printed or drawn
  before it stays in the trace, so both return their output together with the exception, if
  any.
\<close>

fun print_rows :: "pyfloat list \<Rightarrow> (nat \<times> string) list \<Rightarrow> line list \<times> exn option" where
  "print_rows vals [] = ([], None)"
| "print_rows vals ((i, app) # rest) =
     (case getitem vals i of
        Inl x \<Rightarrow> ([], Some x)
      | Inr v \<Rightarrow>
          (case print_rows vals rest of
             (ls, r) \<Rightarrow> (Row (get_full_app_name app) v # ls, r)))"

definition summary_lines :: "summary \<Rightarrow> line list \<times> exn option" where
  "summary_lines s =
     (case print_rows (values' s) (enumerate 0 (butlast (apps s))) of
        (rows, Some x) \<Rightarrow> ([Summary_title, Table_header, Rule] @ rows, Some x)
      | (rows, None) \<Rightarrow>
          ([Summary_title, Table_header, Rule] @ rows @ [Rule, Average_row (average_value s)],
           None))"

subsection \<open>The chart (lines 102 to 162)\<close>

definition spines :: "string list" where
  "spines = [''left'', ''right'', ''bottom'', ''top'']"

definition chart :: "summary \<Rightarrow> plt_call list \<times> exn option" where
  "chart s =
     (let x = [0..<length (apps s)];
          drawn = [Figure, Rc_params_update, Gca, Grid, Bar x (values' s)]
                  @ (if 1 < length (apps s) then [Axvline (of_nat (length (apps s)) - 3 / 2)] else [])
                  @ [Set_xticks x, Set_xticklabels (apps_labels s), Subplots_adjust, Yticks, Ylabel]
      in case py_max (values' s) of
           Inl e \<Rightarrow> (drawn, Some e)
         | Inr m \<Rightarrow>
             (drawn
              @ [Ylim (Fin 0) (float_add m (Fin 5)), Set_major_formatter]
              @ concat (map (\<lambda>sp. [Spine_set_visible sp, Spine_set_color sp,
                                      Spine_set_linewidth sp]) spines)
              @ [Tight_layout,
                 Savefig ''backend_bound_plot.png'',
                 Savefig ''backend_bound_plot.pdf'',
                 Savefig ''backend_bound_plot.eps''], None))"

definition report :: "dict \<Rightarrow> event list \<times> status" where
  "report apps_data =
     (case summarise apps_data of
        Inl x \<Rightarrow> ([], Uncaught x)
      | Inr s \<Rightarrow>
          (case summary_lines s of
             (ls, Some x) \<Rightarrow> (map Print ls, Uncaught x)
           | (ls, None) \<Rightarrow>
               (case chart s of
                  (calls, Some x) \<Rightarrow> (map Print ls @ map Plt calls, Uncaught x)
                | (calls, None) \<Rightarrow>
                    (map Print ls @ map Plt calls
                     @ map Print [Saved_title, Saved_file ''backend_bound_plot.png'',
                                  Saved_file ''backend_bound_plot.pdf'',
                                  Saved_file ''backend_bound_plot.eps'']
                     @ [Plt Show], Returned))))"

subsection \<open>main (lines 44 to 162)\<close>

definition base_dir_of :: "env \<Rightarrow> string" where
  "base_dir_of e = (if 1 < length (sys_argv e) then sys_argv e ! 1 else expanduser_default e)"

definition main :: "env \<Rightarrow> event list \<times> status" where
  "main e =
     (let base_dir = base_dir_of e
      in if \<not> path_exists e base_dir
         then ([Os_exists base_dir, Print (Dir_not_found base_dir), Print (Usage (argv0 e))],
               Sys_exit 1)
         else
           (case listdir e base_dir of
              Inl x \<Rightarrow> ([Os_exists base_dir, Os_listdir base_dir], Uncaught x)
            | Inr names \<Rightarrow>
                (case scan e base_dir (sort names) [] of
                   (t, apps_data) \<Rightarrow>
                     if apps_data = []
                     then ([Os_exists base_dir, Os_listdir base_dir] @ t @ [Print No_data],
                           Sys_exit 1)
                     else (case report apps_data of
                             (t', st) \<Rightarrow>
                               ([Os_exists base_dir, Os_listdir base_dir] @ t @ t', st)))))"

section \<open>Vocabulary of the properties\<close>

text \<open>
  The definitions of this section are not part of the program: they state what the
  properties below speak about, and name the inputs at which the properties are instantiated.
\<close>

subsection \<open>Occurrences of the pattern\<close>

text \<open>
  The pattern occurs at position \<open>i\<close> of a text with group \<open>g\<close> when the text from \<open>i\<close> on
  reads: the literal, one or more whitespace characters, the non-empty run \<open>g\<close> of digits and
  dots, a percent sign. The first occurrence is the one at the least position.
\<close>

definition occurs_at :: "string \<Rightarrow> nat \<Rightarrow> string \<Rightarrow> bool" where
  "occurs_at content i g =
     (\<exists>ws rest. drop i content = ''Back-End Bound:'' @ ws @ g @ ''%'' @ rest
        \<and> ws \<noteq> [] \<and> list_all is_space ws \<and> g \<noteq> [] \<and> list_all digit_or_dot g)"

definition first_occurrence :: "string \<Rightarrow> string \<Rightarrow> bool" where
  "first_occurrence content g =
     (\<exists>i. occurs_at content i g \<and> (\<forall>j<i. \<forall>h. \<not> occurs_at content j h))"

subsection \<open>Float literals and their values\<close>

text \<open>
  A string of digits and dots is a float literal when it has at most one dot and at least
  one digit; its value is the decimal number it writes.
\<close>

definition float_literal :: "string \<Rightarrow> bool" where
  "float_literal g =
     (list_all digit_or_dot g \<and> count_list g CHR ''.'' \<le> 1 \<and> list_ex is_digit g)"

definition literal_value :: "string \<Rightarrow> rat" where
  "literal_value g =
     of_nat (nat_of_digits (filter is_digit g)) / 10 ^ length (drop 1 (dropWhile is_digit g))"

definition float_nonneg :: "pyfloat \<Rightarrow> bool" where
  "float_nonneg v = (case v of Fin q \<Rightarrow> 0 \<le> q | PInf \<Rightarrow> True | NInf \<Rightarrow> False | NaN \<Rightarrow> False)"

definition float_finite :: "pyfloat \<Rightarrow> bool" where
  "float_finite v = (case v of Fin q \<Rightarrow> True | _ \<Rightarrow> False)"

subsection \<open>Entities\<close>

text \<open>
  What the subdirectory \<open>D\<close> of the base directory yields: the value extracted from
  \<^verbatim>\<open>D/D_topdown_summary.txt\<close> when \<open>D\<close> is a directory and that file exists, nothing
  otherwise. The entities of a listing are its names that yield a value, each once, in
  ascending order.
\<close>

definition yields :: "env \<Rightarrow> string \<Rightarrow> string \<Rightarrow> pyfloat option" where
  "yields e base_dir D =
     (if path_isdir e (path_join base_dir D) \<and> path_exists e (summary_path base_dir D)
      then snd (extract_backend_bound e (summary_path base_dir D)) else None)"

definition entities :: "env \<Rightarrow> string \<Rightarrow> string list \<Rightarrow> string list" where
  "entities e base_dir names = filter (\<lambda>D. yields e base_dir D \<noteq> None) (remdups (sort names))"

subsection \<open>Events\<close>

definition is_open_read :: "event \<Rightarrow> bool" where
  "is_open_read ev = (case ev of Open_read _ \<Rightarrow> True | _ \<Rightarrow> False)"

definition is_os_isdir :: "event \<Rightarrow> bool" where
  "is_os_isdir ev = (case ev of Os_isdir _ \<Rightarrow> True | _ \<Rightarrow> False)"

text \<open>The matplotlib calls of a trace, the files it saves, and the calls that draw or label.\<close>

fun plt_calls :: "event list \<Rightarrow> plt_call list" where
  "plt_calls [] = []"
| "plt_calls (Plt c # t) = c # plt_calls t"
| "plt_calls (ev # t) = plt_calls t"


fun is_key_call :: "plt_call \<Rightarrow> bool" where
  "is_key_call (Bar x ys) = True"
| "is_key_call (Set_xticks x) = True"
| "is_key_call (Set_xticklabels ls) = True"
| "is_key_call (Savefig f) = True"
| "is_key_call c = False"

subsection \<open>Example environments\<close>

text \<open>A file system with one file \<open>p\<close>, whose read gives \<open>r\<close>.\<close>

definition file_env :: "string \<Rightarrow> exn + string \<Rightarrow> env" where
  "file_env p r =
     \<lparr>argv0 = ''plot_topdown.py'', args = [],
      expanduser_default = ''/home/user/Topdown/crono-results'',
      path_exists = (\<lambda>q. q = p), path_isdir = (\<lambda>q. False),
      listdir = (\<lambda>q. Inl (OSError ''ENOENT'')),
      read_text = (\<lambda>q. if q = p then r else Inl (OSError ''ENOENT''))\<rparr>"

text \<open>The digit string of \<open>10 ^ 309\<close>, which is beyond the largest double.\<close>

definition overflowing_digits :: string where
  "overflowing_digits = CHR ''1'' # replicate 309 CHR ''0''"

text \<open>
  A results directory \<^verbatim>\<open>r\<close>, given on the command line, with the subdirectories
  \<^verbatim>\<open>bfs_gnutella31\<close> and \<^verbatim>\<open>x\<close>, each with its summary file, the subdirectory \<^verbatim>\<open>empty\<close>
  without one, and whatever else the listing \<open>names\<close> shows.
\<close>

definition results_env :: "string list \<Rightarrow> env" where
  "results_env names =
     \<lparr>argv0 = ''plot_topdown.py'', args = [''r''],
      expanduser_default = ''/home/user/Topdown/crono-results'',
      path_exists = (\<lambda>q. q \<in> set [''r'', ''r/bfs_gnutella31/bfs_gnutella31_topdown_summary.txt'',
                                        ''r/x/x_topdown_summary.txt'']),
      path_isdir = (\<lambda>q. q \<in> set [''r'', ''r/bfs_gnutella31'', ''r/x'', ''r/empty'']),
      listdir = (\<lambda>q. if q = ''r'' then Inr names else Inl (OSError ''ENOTDIR'')),
      read_text = (\<lambda>q. if q = ''r/bfs_gnutella31/bfs_gnutella31_topdown_summary.txt''
                          then Inr ''Back-End Bound: 30% of Pipeline Slots''
                        else if q = ''r/x/x_topdown_summary.txt'' then Inr ''Back-End Bound: 12%''
                        else Inl (OSError ''ENOENT''))\<rparr>"

definition demo_listing :: "string list" where
  "demo_listing = [''x'', ''notes.txt'', ''empty'', ''bfs_gnutella31'']"

section \<open>The matcher finds the first occurrence of the pattern\<close>

lemma first_some_None: "(\<And>x. x \<in> set xs \<Longrightarrow> x = None) \<Longrightarrow> first_some xs = None"
  by (induction xs rule: first_some.induct) auto

lemma first_some_down:
  "first_some (map f (rev [1..<Suc k])) =
     (if k = 0 then None
      else case f k of Some y \<Rightarrow> Some y | None \<Rightarrow> first_some (map f (rev [1..<k])))"
  by (cases k) (auto split: option.splits)

lemma first_some_only_top:
  assumes "\<And>n. 1 \<le> n \<Longrightarrow> n < k \<Longrightarrow> f n = None"
  shows "first_some (map f (rev [1..<Suc k])) = (if k = 0 then None else f k)"
proof -
  have "first_some (map f (rev [1..<k])) = None"
    by (rule first_some_None) (use assms in auto)
  then show ?thesis
    by (cases "f k") (simp_all add: first_some_down)
qed

lemma match_here_literals:
  "match_here (map Literal l @ r) s =
     (if take (length l) s = l then match_here r (drop (length l) s) else None)"
proof (induction l arbitrary: s)
  case Nil
  then show ?case by simp
next
  case (Cons c l)
  show ?case
  proof (cases s)
    case Nil
    then show ?thesis by simp
  next
    case (Cons d t)
    then show ?thesis using Cons.IH [of t] by auto
  qed
qed

lemma match_here_literal_last:
  "match_here [Literal c] s = (if take 1 s = [c] then Some [] else None)"
  by (cases s) auto

lemma drop_takeWhile_hd:
  assumes "n < length (takeWhile p s)"
  shows "\<exists>x t. drop n s = x # t \<and> p x"
proof -
  have len: "n < length s"
    using assms length_takeWhile_le [of p s] by (simp add: less_le_trans)
  have "p (s ! n)"
    using assms by (metis nth_mem set_takeWhileD takeWhile_nth)
  moreover have "drop n s = s ! n # drop (Suc n) s"
    using len by (simp add: Cons_nth_drop_Suc)
  ultimately show ?thesis by blast
qed

lemma match_here_group_then_literal:
  assumes "\<not> p c"
  shows "match_here [Group_Plus p, Literal c] s =
     (if takeWhile p s \<noteq> [] \<and> take 1 (dropWhile p s) = [c] then Some [takeWhile p s] else None)"
proof -
  let ?k = "length (takeWhile p s)"
  let ?f = "\<lambda>n. map_option ((#) (take n s)) (match_here [Literal c] (drop n s))"
  have low: "?f n = None" if a: "1 \<le> n" and b: "n < ?k" for n
  proof -
    obtain x t where "drop n s = x # t" "p x"
      using drop_takeWhile_hd [OF b] by blast
    then show ?thesis using assms by auto
  qed
  have dk: "drop ?k s = dropWhile p s"
    by (rule dropWhile_eq_drop [symmetric])
  have tk: "take ?k s = takeWhile p s"
    by (rule takeWhile_eq_take [symmetric])
  have "match_here [Group_Plus p, Literal c] s = first_some (map ?f (rev [1..<Suc ?k]))"
    by (rule match_here.simps(4))
  also have "\<dots> = (if ?k = 0 then None else ?f ?k)"
    by (rule first_some_only_top) (rule low)
  also have "\<dots> = (if takeWhile p s \<noteq> [] \<and> take 1 (dropWhile p s) = [c]
                     then Some [takeWhile p s] else None)"
    by (simp only: dk tk match_here_literal_last length_0_conv) simp
  finally show ?thesis .
qed

lemma match_here_plus_disjoint:
  assumes "\<And>x. q x \<Longrightarrow> \<not> p x"
  shows "match_here (Plus q # Group_Plus p # r) s =
     (if takeWhile q s \<noteq> [] then match_here (Group_Plus p # r) (dropWhile q s) else None)"
proof -
  let ?k = "length (takeWhile q s)"
  let ?f = "\<lambda>n. match_here (Group_Plus p # r) (drop n s)"
  have low: "?f n = None" if a: "1 \<le> n" and b: "n < ?k" for n
  proof -
    obtain x t where "drop n s = x # t" "q x"
      using drop_takeWhile_hd [OF b] by blast
    then have "takeWhile p (drop n s) = []"
      using assms by simp
    then show ?thesis by simp
  qed
  have dk: "drop ?k s = dropWhile q s"
    by (rule dropWhile_eq_drop [symmetric])
  have "match_here (Plus q # Group_Plus p # r) s = first_some (map ?f (rev [1..<Suc ?k]))"
    by (rule match_here.simps(3))
  also have "\<dots> = (if ?k = 0 then None else ?f ?k)"
    by (rule first_some_only_top) (rule low)
  also have "\<dots> = (if takeWhile q s \<noteq> [] then match_here (Group_Plus p # r) (dropWhile q s)
                     else None)"
    by (simp only: dk length_0_conv if_not_P cong: if_cong) (simp del: match_here.simps)
  finally show ?thesis .
qed

lemma space_not_digit_or_dot: "is_space x \<Longrightarrow> \<not> digit_or_dot x"
  by (auto simp: is_space_def digit_or_dot_def is_digit_def Let_def)

lemma percent_not_digit_or_dot: "\<not> digit_or_dot CHR ''%''"
  by (simp add: digit_or_dot_def is_digit_def)

lemma if_nest3:
  "(if A then (if B then (if C then x else y) else y) else y) = (if A \<and> B \<and> C then x else y)"
  by simp

lemma match_here_backend_pattern:
  "match_here backend_pattern s =
     (if take 15 s = ''Back-End Bound:'' \<and> takeWhile is_space (drop 15 s) \<noteq> []
         \<and> takeWhile digit_or_dot (dropWhile is_space (drop 15 s)) \<noteq> []
         \<and> take 1 (dropWhile digit_or_dot (dropWhile is_space (drop 15 s))) = ''%''
      then Some [takeWhile digit_or_dot (dropWhile is_space (drop 15 s))] else None)"
proof -
  define l where "l = ''Back-End Bound:''"
  define r where "r = [Plus is_space, Group_Plus digit_or_dot, Literal CHR ''%'']"
  define s1 where "s1 = drop 15 s"
  define s2 where "s2 = dropWhile is_space s1"
  have len: "length l = 15" by (simp add: l_def)
  have "match_here backend_pattern s = match_here (map Literal l @ r) s"
    by (simp only: backend_pattern_def l_def r_def)
  also have "\<dots> = (if take 15 s = l then match_here r s1 else None)"
    by (simp only: match_here_literals len s1_def)
  also have "match_here r s1 =
      (if takeWhile is_space s1 \<noteq> []
       then match_here [Group_Plus digit_or_dot, Literal CHR ''%''] s2
       else None)"
    unfolding r_def s2_def by (rule match_here_plus_disjoint) (rule space_not_digit_or_dot)
  also have "match_here [Group_Plus digit_or_dot, Literal CHR ''%''] s2 =
      (if takeWhile digit_or_dot s2 \<noteq> [] \<and> take 1 (dropWhile digit_or_dot s2) = ''%''
       then Some [takeWhile digit_or_dot s2] else None)"
    by (rule match_here_group_then_literal) (rule percent_not_digit_or_dot)
  finally have "match_here backend_pattern s =
      (if take 15 s = l \<and> takeWhile is_space s1 \<noteq> []
          \<and> (takeWhile digit_or_dot s2 \<noteq> [] \<and> take 1 (dropWhile digit_or_dot s2) = ''%'')
       then Some [takeWhile digit_or_dot s2] else None)"
    by (simp only: if_nest3)
  then show ?thesis
    by (simp only: l_def s1_def s2_def)
qed

lemma if_Some_None_eq: "(if C then Some x else None) = Some y \<longleftrightarrow> C \<and> x = y"
  by simp

lemma takeWhile_run:
  assumes "list_all p xs" and "ys = [] \<or> \<not> p (hd ys)"
  shows "takeWhile p (xs @ ys) = xs" and "dropWhile p (xs @ ys) = ys"
proof -
  have all: "\<forall>x\<in>set xs. p x"
    using assms(1) by (simp add: list_all_iff)
  have t: "takeWhile p ys = []" and d: "dropWhile p ys = ys"
    using assms(2) by (cases ys; simp)+
  show "takeWhile p (xs @ ys) = xs"
    using all t by (simp add: takeWhile_append2)
  show "dropWhile p (xs @ ys) = ys"
    using all d by (simp add: dropWhile_append2)
qed

lemma match_here_occurs:
  "match_here backend_pattern s = Some gs \<longleftrightarrow>
     (\<exists>g ws rest. gs = [g] \<and> s = ''Back-End Bound:'' @ ws @ g @ ''%'' @ rest
        \<and> ws \<noteq> [] \<and> list_all is_space ws \<and> g \<noteq> [] \<and> list_all digit_or_dot g)"
  (is "?L \<longleftrightarrow> ?R")
proof
  define s1 where "s1 = drop 15 s"
  define s2 where "s2 = dropWhile is_space s1"
  define s3 where "s3 = dropWhile digit_or_dot s2"
  assume ?L
  then have "take 15 s = ''Back-End Bound:'' \<and> takeWhile is_space s1 \<noteq> []
      \<and> takeWhile digit_or_dot s2 \<noteq> [] \<and> take 1 s3 = ''%''"
    and "[takeWhile digit_or_dot s2] = gs"
    unfolding match_here_backend_pattern s1_def s2_def s3_def if_Some_None_eq
    by blast+
  then have c: "take 15 s = ''Back-End Bound:''" "takeWhile is_space s1 \<noteq> []"
      "takeWhile digit_or_dot s2 \<noteq> []" "take 1 s3 = ''%''"
    and gs: "gs = [takeWhile digit_or_dot s2]"
    by blast+
  have "s = take 15 s @ s1"
    by (simp only: s1_def append_take_drop_id)
  moreover have "s1 = takeWhile is_space s1 @ s2"
    by (simp only: s2_def takeWhile_dropWhile_id)
  moreover have "s2 = takeWhile digit_or_dot s2 @ s3"
    by (simp only: s3_def takeWhile_dropWhile_id)
  moreover have "s3 = ''%'' @ drop 1 s3"
    using c(4) append_take_drop_id [of 1 s3] by simp
  ultimately have "s = ''Back-End Bound:'' @ takeWhile is_space s1 @ takeWhile digit_or_dot s2
      @ ''%'' @ drop 1 s3"
    using c(1) by (metis append_assoc)
  moreover have "list_all is_space (takeWhile is_space s1)"
    by (simp add: list_all_iff) (meson set_takeWhileD)
  moreover have "list_all digit_or_dot (takeWhile digit_or_dot s2)"
    by (simp add: list_all_iff) (meson set_takeWhileD)
  ultimately show ?R
    using c(2,3) gs by blast
next
  assume ?R
  then obtain g ws rest where gs: "gs = [g]"
    and s: "s = ''Back-End Bound:'' @ ws @ g @ ''%'' @ rest"
    and ws: "ws \<noteq> []" "list_all is_space ws"
    and g: "g \<noteq> []" "list_all digit_or_dot g"
    by blast
  have t15: "take 15 s = ''Back-End Bound:''" and d15: "drop 15 s = ws @ (g @ ''%'' @ rest)"
    unfolding s by simp_all
  have "digit_or_dot (hd g)"
    using g by (cases g) simp_all
  then have hdg: "\<not> is_space (hd (g @ ''%'' @ rest))"
    using g(1) space_not_digit_or_dot by auto
  have tw: "takeWhile is_space (drop 15 s) = ws"
    and dw: "dropWhile is_space (drop 15 s) = g @ (''%'' @ rest)"
    unfolding d15 using takeWhile_run [OF ws(2), of "g @ ''%'' @ rest"] hdg by simp_all
  have pc: "\<not> digit_or_dot (hd (''%'' @ rest))"
    using percent_not_digit_or_dot by simp
  have tg: "takeWhile digit_or_dot (g @ (''%'' @ rest)) = g"
    and dg: "dropWhile digit_or_dot (g @ (''%'' @ rest)) = ''%'' @ rest"
    using takeWhile_run [OF g(2), of "''%'' @ rest"] pc by simp_all
  show ?L
    unfolding match_here_backend_pattern t15 tw dw tg dg gs
    using ws(1) g(1) by simp
qed

lemma re_search_Some:
  "re_search pat s = Some gs \<longleftrightarrow>
     (\<exists>i\<le>length s. match_here pat (drop i s) = Some gs
        \<and> (\<forall>j<i. match_here pat (drop j s) = None))"
proof (induction s)
  case Nil
  then show ?case by simp
next
  case (Cons c s)
  show ?case
  proof (cases "match_here pat (c # s)")
    case (Some hs)
    have "(\<exists>i\<le>length (c # s). match_here pat (drop i (c # s)) = Some gs
        \<and> (\<forall>j<i. match_here pat (drop j (c # s)) = None)) \<longleftrightarrow> hs = gs"
    proof
      assume "\<exists>i\<le>length (c # s). match_here pat (drop i (c # s)) = Some gs
        \<and> (\<forall>j<i. match_here pat (drop j (c # s)) = None)"
      then obtain i where i: "match_here pat (drop i (c # s)) = Some gs"
        "\<forall>j<i. match_here pat (drop j (c # s)) = None" by blast
      have "i = 0"
      proof (rule ccontr)
        assume "i \<noteq> 0"
        then have "match_here pat (drop 0 (c # s)) = None" using i(2) by blast
        then show False using Some by simp
      qed
      then show "hs = gs" using i(1) Some by simp
    next
      assume "hs = gs"
      then have "match_here pat (drop 0 (c # s)) = Some gs
        \<and> (\<forall>j<0. match_here pat (drop j (c # s)) = None)" using Some by simp
      then show "\<exists>i\<le>length (c # s). match_here pat (drop i (c # s)) = Some gs
        \<and> (\<forall>j<i. match_here pat (drop j (c # s)) = None)" by blast
    qed
    then show ?thesis using Some by simp
  next
    case None
    have "(\<exists>i\<le>length (c # s). match_here pat (drop i (c # s)) = Some gs
        \<and> (\<forall>j<i. match_here pat (drop j (c # s)) = None)) \<longleftrightarrow>
      (\<exists>i\<le>length s. match_here pat (drop i s) = Some gs
        \<and> (\<forall>j<i. match_here pat (drop j s) = None))" (is "?A \<longleftrightarrow> ?B")
    proof
      assume ?A
      then obtain i where i: "i \<le> length (c # s)" "match_here pat (drop i (c # s)) = Some gs"
        "\<forall>j<i. match_here pat (drop j (c # s)) = None" by blast
      then have "i \<noteq> 0" using None by (cases i) auto
      then obtain k where k: "i = Suc k" by (cases i) auto
      have "\<forall>j<k. match_here pat (drop j s) = None"
      proof (intro allI impI)
        fix j assume "j < k"
        then have "match_here pat (drop (Suc j) (c # s)) = None" using i(3) k by blast
        then show "match_here pat (drop j s) = None" by simp
      qed
      then show ?B using i(1,2) k by auto
    next
      assume ?B
      then obtain i where i: "i \<le> length s" "match_here pat (drop i s) = Some gs"
        "\<forall>j<i. match_here pat (drop j s) = None" by blast
      have "\<forall>j<Suc i. match_here pat (drop j (c # s)) = None"
      proof (intro allI impI)
        fix j assume "j < Suc i"
        then show "match_here pat (drop j (c # s)) = None"
          using None i(3) by (cases j) auto
      qed
      then show ?A using i(1,2) by (intro exI [of _ "Suc i"]) simp
    qed
    then show ?thesis using None Cons.IH by simp
  qed
qed

lemma re_search_None:
  "re_search pat s = None \<longleftrightarrow> (\<forall>i\<le>length s. match_here pat (drop i s) = None)"
proof (induction s)
  case Nil
  then show ?case by simp
next
  case (Cons c s)
  have "(\<forall>i\<le>length (c # s). match_here pat (drop i (c # s)) = None) \<longleftrightarrow>
      match_here pat (c # s) = None \<and> (\<forall>i\<le>length s. match_here pat (drop i s) = None)"
    (is "?A \<longleftrightarrow> ?B")
  proof
    assume a: ?A
    have "match_here pat (drop 0 (c # s)) = None" using a by blast
    moreover have "match_here pat (drop i s) = None" if "i \<le> length s" for i
      using a that by (metis Suc_le_mono drop_Suc_Cons length_Cons)
    ultimately show ?B by simp
  next
    assume b: ?B
    show ?A
    proof (intro allI impI)
      fix i assume "i \<le> length (c # s)"
      then show "match_here pat (drop i (c # s)) = None"
        using b by (cases i) auto
    qed
  qed
  then show ?case using Cons.IH by (simp split: option.splits)
qed

section \<open>Rounding to a double\<close>

lemma pow2_powi: "pow2 e = 2 powi e"
  by (simp add: pow2_def power_int_def field_simps power_inverse flip: power_inverse)

lemma pow2_pos: "0 < pow2 e"
  by (simp add: pow2_powi)

lemma pow2_add: "pow2 (a + b) = pow2 a * pow2 b"
  by (simp add: pow2_powi power_int_add)

lemma pow2_diff: "pow2 (a - b) = pow2 a / pow2 b"
  by (simp add: pow2_powi power_int_diff)

lemma pow2_mono: "a \<le> b \<Longrightarrow> pow2 a \<le> pow2 b"
  by (simp add: pow2_powi power_int_increasing)

lemma pow2_strict_mono: "a < b \<Longrightarrow> pow2 a < pow2 b"
  by (simp add: pow2_powi power_int_strict_increasing)

lemma pow2_less_iff: "pow2 a < pow2 b \<longleftrightarrow> a < b"
proof
  assume l: "pow2 a < pow2 b"
  show "a < b"
  proof (rule ccontr)
    assume "\<not> a < b"
    then have "pow2 b \<le> pow2 a" by (intro pow2_mono) simp
    then show False using l by simp
  qed
qed (rule pow2_strict_mono)

lemma pow2_le_iff: "pow2 a \<le> pow2 b \<longleftrightarrow> a \<le> b"
proof
  assume l: "pow2 a \<le> pow2 b"
  show "a \<le> b"
  proof (rule ccontr)
    assume "\<not> a \<le> b"
    then have "pow2 b < pow2 a" by (intro pow2_strict_mono) simp
    then show False using l by simp
  qed
qed (rule pow2_mono)

lemma pow2_nat: "pow2 (int n) = 2 ^ n"
  by (simp add: pow2_def)

lemma pow2_Suc: "pow2 (e + 1) = 2 * pow2 e"
proof -
  have "pow2 1 = 2" by (simp add: pow2_def)
  then show ?thesis using pow2_add [of e 1] by simp
qed

lemma of_int_bitlen_bounds:
  assumes "0 < (a::int)"
  shows "pow2 (bitlen a - 1) \<le> of_int a" and "of_int a < pow2 (bitlen a)"
proof -
  have b: "2 ^ nat (bitlen a - 1) \<le> a" "a < 2 ^ nat (bitlen a)"
    using bitlen_bounds [OF assms] by simp_all
  have pos: "0 < bitlen a"
    using assms bitlen_nonneg [of a] bitlen_eq_zero_iff [of a] by linarith
  have "pow2 (bitlen a - 1) = 2 ^ nat (bitlen a - 1)"
    using pos by (simp add: pow2_def)
  also have "\<dots> = of_int (2 ^ nat (bitlen a - 1))" by simp
  also have "\<dots> \<le> of_int a" using b(1) by (simp only: of_int_le_iff)
  finally show "pow2 (bitlen a - 1) \<le> of_int a" .
  have "(of_int a :: rat) < of_int (2 ^ nat (bitlen a))"
    using b(2) by (simp only: of_int_less_iff)
  also have "\<dots> = pow2 (bitlen a)"
    using pos by (simp add: pow2_def)
  finally show "of_int a < pow2 (bitlen a)" .
qed

lemma ilog2_bounds:
  assumes "0 < q"
  shows "pow2 (ilog2 q) \<le> q" and "q < pow2 (ilog2 q + 1)"
proof -
  obtain a b where ab: "quotient_of q = (a, b)" by (cases "quotient_of q")
  have b: "0 < b" using ab by (rule quotient_of_denom_pos)
  have q: "q = of_int a / of_int b" using ab by (rule quotient_of_div)
  have a: "0 < a"
    using assms b unfolding q by (simp add: zero_less_divide_iff)
  define d where "d = bitlen a - bitlen b"
  have bq: "0 < (of_int b :: rat)" using b by simp
  have "pow2 (d - 1) * of_int b < pow2 (d - 1) * pow2 (bitlen b)"
    using of_int_bitlen_bounds(2) [OF b] pow2_pos by simp
  also have "\<dots> = pow2 (bitlen a - 1)"
    by (simp add: d_def flip: pow2_add)
  also have "\<dots> \<le> of_int a"
    by (rule of_int_bitlen_bounds(1) [OF a])
  finally have lo: "pow2 (d - 1) < q"
    unfolding q using bq by (simp add: pos_less_divide_eq)
  have "of_int a < pow2 (bitlen a)"
    by (rule of_int_bitlen_bounds(2) [OF a])
  also have "\<dots> = pow2 (d + 1) * pow2 (bitlen b - 1)"
    by (simp add: d_def flip: pow2_add)
  also have "\<dots> \<le> pow2 (d + 1) * of_int b"
    using of_int_bitlen_bounds(1) [OF b] pow2_pos by simp
  finally have hi: "q < pow2 (d + 1)"
    unfolding q using bq by (simp add: pos_divide_less_eq)
  have il: "ilog2 q = (if pow2 d \<le> q then d else d - 1)"
    by (simp add: ilog2_def ab d_def Let_def)
  show "pow2 (ilog2 q) \<le> q"
    using lo by (simp add: il)
  show "q < pow2 (ilog2 q + 1)"
    using hi by (simp add: il not_le)
qed

lemma ilog2_less: "0 < q \<Longrightarrow> q < pow2 n \<Longrightarrow> ilog2 q < n"
  using ilog2_bounds(1) [of q] pow2_less_iff [of "ilog2 q" n] by simp

lemma ilog2_ge: "0 < q \<Longrightarrow> pow2 n \<le> q \<Longrightarrow> n \<le> ilog2 q"
  using ilog2_bounds(2) [of q] pow2_less_iff [of n "ilog2 q + 1"] by simp

lemma round_half_even_bounds:
  shows "x - 1 / 2 \<le> of_int (round_half_even x)"
    and "of_int (round_half_even x) \<le> x + 1 / 2"
proof -
  define f where "f = \<lfloor>x\<rfloor>"
  have f: "of_int f \<le> x" "x < of_int f + 1"
    unfolding f_def by linarith+
  have r: "round_half_even x =
      (if x - of_int f < 1 / 2 then f else if 1 / 2 < x - of_int f then f + 1
       else if even f then f else f + 1)"
    by (simp add: round_half_even_def Let_def f_def)
  show "x - 1 / 2 \<le> of_int (round_half_even x)"
    unfolding r using f by (simp; linarith)
  show "of_int (round_half_even x) \<le> x + 1 / 2"
    unfolding r using f by (simp; linarith)
qed

lemma round_half_even_of_int: "round_half_even (of_int n) = n"
  by (simp add: round_half_even_def)

lemma round_half_even_nonneg: "0 \<le> x \<Longrightarrow> 0 \<le> round_half_even x"
  by (auto simp: round_half_even_def Let_def)

lemma round_half_even_ge_int: "of_int n \<le> x \<Longrightarrow> n \<le> round_half_even x"
proof -
  assume "of_int n \<le> x"
  then have "n \<le> \<lfloor>x\<rfloor>" by (simp add: le_floor_iff)
  then show ?thesis by (auto simp: round_half_even_def Let_def)
qed

lemma round_double_pos:
  assumes "0 < q"
  defines "e \<equiv> max (ilog2 q) (- 1022)"
  defines "r \<equiv> of_int (round_half_even (q / pow2 (e - 52))) * pow2 (e - 52)"
  shows "round_double q = (if pow2 1024 \<le> r then PInf else Fin r)"
  using assms(1) by (simp add: round_double_def Let_def e_def r_def)

lemma round_double_nonneg:
  assumes "0 \<le> q"
  shows "round_double q = PInf \<or> (\<exists>r. round_double q = Fin r \<and> 0 \<le> r)"
proof (cases "q = 0")
  case True
  then show ?thesis by (simp add: round_double_def)
next
  case False
  then have q: "0 < q" using assms by simp
  define u where "u = pow2 (max (ilog2 q) (- 1022) - 52)"
  have u: "0 < u" unfolding u_def by (rule pow2_pos)
  have "0 \<le> q / u" using q u by simp
  then have "0 \<le> round_half_even (q / u)" by (rule round_half_even_nonneg)
  then have "0 \<le> of_int (round_half_even (q / u)) * u" using u by simp
  then show ?thesis
    unfolding round_double_pos [OF q] u_def by simp
qed

lemma round_double_overflow_iff:
  assumes q: "0 < q"
  shows "round_double q = PInf \<longleftrightarrow> pow2 1024 - pow2 970 \<le> q"
proof -
  define e where "e = max (ilog2 q) (- 1022)"
  define u where "u = pow2 (e - 52)"
  define m where "m = round_half_even (q / u)"
  have u: "0 < u" unfolding u_def by (rule pow2_pos)
  have rd: "round_double q = PInf \<longleftrightarrow> pow2 1024 \<le> of_int m * u"
    unfolding round_double_pos [OF q] m_def u_def e_def by simp
  have p1024: "pow2 1024 = pow2 53 * pow2 971" "pow2 1024 = 2 * pow2 1023"
    "pow2 971 = 2 * pow2 970" "pow2 1023 = pow2 52 * pow2 971"
    by (simp_all flip: pow2_add pow2_Suc)
  have p53: "pow2 53 = of_int (2 ^ 53)" "pow2 52 = of_int (2 ^ 52)"
    by (simp_all add: pow2_def)
  show ?thesis
  proof
    assume big: "pow2 1024 - pow2 970 \<le> q"
    have "pow2 1023 \<le> pow2 1024 - pow2 970"
      using pow2_mono [of 970 1023] by (simp add: p1024(2))
    then have "1023 \<le> ilog2 q"
      using big by (intro ilog2_ge [OF q]) simp
    then have e: "e = ilog2 q" "1023 \<le> e" by (simp_all add: e_def)
    have "pow2 1024 \<le> of_int m * u"
    proof (cases "e = 1023")
      case True
      then have u971: "u = pow2 971" by (simp add: u_def)
      define v where "v = q / u"
      have "(pow2 53 - 1 / 2) * u \<le> q"
        using big by (simp add: u971 p1024 algebra_simps)
      then have x: "pow2 53 - 1 / 2 \<le> v"
        unfolding v_def using u by (simp add: pos_le_divide_eq)
      define N where "N = (2::int) ^ 53"
      have N: "pow2 53 = of_int N" "\<not> even (N - 1)"
        by (simp_all add: N_def pow2_def)
      have "N \<le> round_half_even v"
      proof -
        have "of_int (N - 1) \<le> v"
          using x unfolding N by simp
        then have fl: "N - 1 \<le> \<lfloor>v\<rfloor>"
          by (simp only: le_floor_iff)
        show ?thesis
        proof (cases "N \<le> \<lfloor>v\<rfloor>")
          case True
          then have "of_int N \<le> v" by (simp only: le_floor_iff)
          then show ?thesis by (rule round_half_even_ge_int)
        next
          case False
          then have f: "\<lfloor>v\<rfloor> = N - 1" using fl by linarith
          have "1 / 2 \<le> v - of_int (N - 1)"
            using x unfolding N by simp
          then show ?thesis
            unfolding round_half_even_def Let_def f using N(2) by auto
        qed
      qed
      then have "2 ^ 53 \<le> m" by (simp only: m_def v_def N_def)
      then have "pow2 53 \<le> of_int m"
        unfolding p53 by (simp only: of_int_le_iff)
      then have "pow2 53 * u \<le> of_int m * u"
        using u by simp
      then show ?thesis by (simp add: u971 p1024(1))
    next
      case False
      then have e': "1024 \<le> e" using e(2) by simp
      have "pow2 e \<le> q" unfolding e(1) by (rule ilog2_bounds(1) [OF q])
      moreover have "pow2 e = pow2 52 * u"
        by (simp add: u_def flip: pow2_add)
      ultimately have "of_int (2 ^ 52) \<le> q / u"
        using u by (simp add: pos_le_divide_eq p53)
      then have "2 ^ 52 \<le> m" unfolding m_def by (rule round_half_even_ge_int)
      then have "pow2 52 \<le> of_int m"
        unfolding p53 by (simp only: of_int_le_iff)
      then have "pow2 52 * u \<le> of_int m * u" using u by simp
      moreover have "pow2 1024 \<le> pow2 e" using e' by (rule pow2_mono)
      ultimately show ?thesis using \<open>pow2 e = pow2 52 * u\<close> by simp
    qed
    then show "round_double q = PInf" by (simp add: rd)
  next
    assume "round_double q = PInf"
    then have big: "pow2 1024 \<le> of_int m * u" by (simp add: rd)
    show "pow2 1024 - pow2 970 \<le> q"
    proof (rule ccontr)
      assume "\<not> pow2 1024 - pow2 970 \<le> q"
      then have small: "q < pow2 1024 - pow2 970" by simp
      have "0 < pow2 970" by (rule pow2_pos)
      then have "q < pow2 1024" using small by simp
      then have "ilog2 q < 1024" by (rule ilog2_less [OF q])
      then have e: "e \<le> 1023" by (simp add: e_def)
      then have "u \<le> pow2 971" unfolding u_def by (intro pow2_mono) simp
      have "of_int m * u < pow2 1024"
      proof (cases "e = 1023")
        case True
        then have u971: "u = pow2 971" by (simp add: u_def)
        have "q < (pow2 53 - 1 / 2) * u"
          using small by (simp add: u971 p1024 algebra_simps)
        then have "q / u < pow2 53 - 1 / 2"
          using u by (simp add: pos_divide_less_eq)
        then have "of_int m < pow2 53"
          using round_half_even_bounds(2) [of "q / u"] unfolding m_def by simp
        then have "of_int m * u < pow2 53 * u" using u by simp
        then show ?thesis by (simp add: u971 p1024(1))
      next
        case False
        then have e': "e \<le> 1022" using e by simp
        have "ilog2 q \<le> e" by (simp add: e_def)
        then have "pow2 (ilog2 q + 1) \<le> pow2 1023"
          using e' by (intro pow2_mono) simp
        then have q1023: "q < pow2 1023"
          using ilog2_bounds(2) [OF q] by simp
        have "u \<le> pow2 970" unfolding u_def using e' by (intro pow2_mono) simp
        have "of_int m * u \<le> (q / u + 1 / 2) * u"
          using round_half_even_bounds(2) [of "q / u"] u unfolding m_def by simp
        also have "\<dots> = q + u / 2" using u by (simp add: algebra_simps)
        also have "\<dots> < pow2 1023 + pow2 970"
          using q1023 \<open>u \<le> pow2 970\<close> u by simp
        also have "\<dots> \<le> pow2 1024"
          using pow2_mono [of 970 1023] by (simp add: p1024(2))
        finally show ?thesis .
      qed
      then show False using big by simp
    qed
  qed
qed

lemma round_double_exact:
  assumes m: "0 < m" "m < 2 ^ 53" and k: "- 1074 \<le> k" "k \<le> 971"
  shows "round_double (of_int m * pow2 k) = Fin (of_int m * pow2 k)"
proof -
  define q where "q = of_int m * pow2 k"
  define e where "e = max (ilog2 q) (- 1022)"
  define u where "u = pow2 (e - 52)"
  have q: "0 < q" unfolding q_def using m(1) pow2_pos by simp
  have u: "0 < u" unfolding u_def by (rule pow2_pos)
  have "(of_int m :: rat) < of_int (2 ^ 53)"
    using m(2) by (simp only: of_int_less_iff)
  moreover have "pow2 53 = of_int (2 ^ 53)"
    by (simp add: pow2_def)
  ultimately have "of_int m < pow2 53"
    by simp
  then have "q < pow2 53 * pow2 k"
    unfolding q_def using pow2_pos [of k] by simp
  then have lt: "q < pow2 (53 + k)" by (simp add: pow2_add)
  then have "ilog2 q < 53 + k" by (rule ilog2_less [OF q])
  then have ek: "e - 52 \<le> k" using k(1) by (simp add: e_def)
  define j where "j = nat (k - (e - 52))"
  have "pow2 k = pow2 (int j) * u"
    using ek by (simp add: j_def u_def flip: pow2_add)
  then have pk: "pow2 k = of_int (2 ^ j) * u" by (simp add: pow2_nat)
  have "q / u = of_int (m * 2 ^ j)"
    using u by (simp add: q_def pk)
  then have "round_half_even (q / u) = m * 2 ^ j"
    by (simp only: round_half_even_of_int)
  then have r: "of_int (round_half_even (q / u)) * u = q"
    by (simp add: q_def pk)
  have "pow2 (53 + k) \<le> pow2 1024" using k(2) by (intro pow2_mono) simp
  then have "\<not> pow2 1024 \<le> q" using lt by simp
  then show ?thesis
    using round_double_pos [OF q] r unfolding e_def [symmetric] u_def [symmetric] q_def [symmetric]
    by simp
qed

lemma round_double_of_nat: "n < 2 ^ 53 \<Longrightarrow> round_double (of_nat n) = Fin (of_nat n)"
proof (cases "n = 0")
  case True
  then show ?thesis by (simp add: round_double_def)
next
  case False
  assume "n < 2 ^ 53"
  then have "int n < 2 ^ 53" by (metis of_nat_less_iff of_nat_numeral of_nat_power)
  then show ?thesis
    using round_double_exact [of "int n" 0] False by (simp add: pow2_def)
qed

section \<open>Float literals\<close>

lemma dot_not_digit: "\<not> is_digit CHR ''.''"
  by (simp add: is_digit_def)

lemma digits_no_dot: "list_all is_digit xs \<Longrightarrow> count_list xs CHR ''.'' = 0"
  by (induction xs) (auto simp: dot_not_digit)

lemma digit_or_dot_all_digit_iff:
  "list_all digit_or_dot xs \<Longrightarrow> list_all is_digit xs \<longleftrightarrow> count_list xs CHR ''.'' = 0"
  by (induction xs) (auto simp: digit_or_dot_def dot_not_digit)

lemma list_ex_all_digit: "list_all is_digit xs \<Longrightarrow> list_ex is_digit xs \<longleftrightarrow> xs \<noteq> []"
  by (cases xs) auto

lemma py_float_cases:
  assumes "list_all digit_or_dot g"
  shows "py_float g =
     (if float_literal g then Inr (round_double (literal_value g)) else Inl ValueError)"
proof -
  define ip where "ip = takeWhile is_digit g"
  define rest where "rest = dropWhile is_digit g"
  have g: "g = ip @ rest" by (simp add: ip_def rest_def)
  have ip: "list_all is_digit ip"
    by (simp add: ip_def list_all_iff) (meson set_takeWhileD)
  have rest: "list_all digit_or_dot rest"
    using assms unfolding g by simp
  show ?thesis
  proof (cases rest)
    case Nil
    then have gi: "g = ip" using g by simp
    have "float_literal g \<longleftrightarrow> ip \<noteq> []"
      using ip assms by (simp add: float_literal_def gi digits_no_dot list_ex_all_digit)
    moreover have "filter is_digit g = ip"
      using ip by (simp add: gi list_all_iff)
    ultimately show ?thesis
      using Nil by (simp add: py_float_def literal_value_def flip: ip_def rest_def)
  next
    case (Cons c fp)
    have "dropWhile is_digit g = c # fp"
      using Cons by (simp only: rest_def)
    then have "\<not> is_digit c"
      using hd_dropWhile [of is_digit g] by (metis list.distinct(1) list.sel(1))
    then have c: "c = CHR ''.''"
      using rest Cons by (simp add: digit_or_dot_def)
    have fp: "list_all digit_or_dot fp" using rest Cons by simp
    have cnt: "count_list g CHR ''.'' = Suc (count_list fp CHR ''.'')"
      unfolding g Cons c using ip by (simp add: digits_no_dot)
    have ex: "list_ex is_digit g \<longleftrightarrow> ip \<noteq> [] \<or> list_ex is_digit fp"
      unfolding g Cons c using ip by (simp add: list_ex_all_digit dot_not_digit)
    have lit: "float_literal g \<longleftrightarrow> list_all is_digit fp \<and> (ip \<noteq> [] \<or> fp \<noteq> [])"
      using assms fp digit_or_dot_all_digit_iff [OF fp] list_ex_all_digit [of fp]
      by (auto simp: float_literal_def cnt ex)
    have "list_all is_digit fp \<Longrightarrow> filter is_digit g = ip @ fp"
      unfolding g Cons c using ip by (simp add: list_all_iff dot_not_digit)
    then show ?thesis
      using Cons c lit by (simp add: py_float_def literal_value_def flip: ip_def rest_def)
  qed
qed

lemma literal_value_nonneg: "0 \<le> literal_value g"
  by (simp add: literal_value_def)

lemma py_float_nonneg:
  assumes "list_all digit_or_dot g" and "py_float g = Inr v"
  shows "float_nonneg v"
proof -
  have "v = round_double (literal_value g)"
    using assms by (simp add: py_float_cases split: if_splits)
  then show ?thesis
    using round_double_nonneg [OF literal_value_nonneg, of g]
    by (auto simp: float_nonneg_def)
qed

lemma round_double_finite_iff:
  assumes "0 \<le> q"
  shows "float_finite (round_double q) \<longleftrightarrow> q < pow2 1024 - pow2 970"
proof (cases "q = 0")
  case True
  have "pow2 970 < pow2 1024" by (rule pow2_strict_mono) simp
  then show ?thesis using True by (simp add: round_double_def float_finite_def)
next
  case False
  then have q: "0 < q" using assms by simp
  have "float_finite (round_double q) \<longleftrightarrow> round_double q \<noteq> PInf"
    using round_double_nonneg [OF assms] by (auto simp: float_finite_def)
  then show ?thesis
    using round_double_overflow_iff [OF q] by auto
qed

lemma nat_of_digits_one_zeros:
  "nat_of_digits (CHR ''1'' # replicate n CHR ''0'') = 10 ^ n"
proof -
  have "foldl (\<lambda>acc c. 10 * acc + digit_val c) a (replicate n CHR ''0'') = a * 10 ^ n" for a
    by (induction n arbitrary: a) (simp_all add: digit_val_def)
  then show ?thesis
    by (simp add: nat_of_digits_def digit_val_def)
qed

lemma overflow_numeral: "pow2 1024 - pow2 970 \<le> 10 ^ 309"
proof -
  have "(2 ^ 1024 :: rat) \<le> 10 ^ 309" by simp
  then have "pow2 1024 \<le> 10 ^ 309" by (simp add: pow2_def)
  then show ?thesis using pow2_pos [of 970] by simp
qed

section \<open>Properties of extract\_backend\_bound\<close>

lemma occurs_at_match_here:
  "occurs_at content i g \<longleftrightarrow> match_here backend_pattern (drop i content) = Some [g]"
  unfolding occurs_at_def match_here_occurs by auto

lemma match_here_result:
  "match_here backend_pattern s = Some gs \<Longrightarrow> \<exists>g. gs = [g]"
  unfolding match_here_occurs by blast

lemma no_match_iff:
  "match_here backend_pattern (drop i content) = None \<longleftrightarrow> (\<forall>h. \<not> occurs_at content i h)"
proof (cases "match_here backend_pattern (drop i content)")
  case None
  then show ?thesis by (simp add: occurs_at_match_here)
next
  case (Some gs)
  then obtain g where "gs = [g]" using match_here_result by blast
  then show ?thesis using Some by (auto simp: occurs_at_match_here)
qed

lemma occurs_at_in_range: "occurs_at content i g \<Longrightarrow> i < length content"
proof (rule ccontr)
  assume o: "occurs_at content i g" and "\<not> i < length content"
  then have "drop i content = []" by simp
  then show False using o unfolding occurs_at_def by simp
qed

lemma re_search_first_occurrence:
  "re_search backend_pattern content = Some gs \<longleftrightarrow> (\<exists>g. gs = [g] \<and> first_occurrence content g)"
  (is "?L \<longleftrightarrow> ?R")
proof
  assume ?L
  then obtain i where i: "match_here backend_pattern (drop i content) = Some gs"
      "\<forall>j<i. match_here backend_pattern (drop j content) = None"
    unfolding re_search_Some by blast
  obtain g where g: "gs = [g]" using i(1) match_here_result by blast
  have "occurs_at content i g" using i(1) g by (simp add: occurs_at_match_here)
  moreover have "\<forall>j<i. \<forall>h. \<not> occurs_at content j h"
    using i(2) by (simp add: no_match_iff)
  ultimately show ?R unfolding first_occurrence_def using g by blast
next
  assume ?R
  then obtain g i where g: "gs = [g]" and i: "occurs_at content i g"
      "\<forall>j<i. \<forall>h. \<not> occurs_at content j h"
    unfolding first_occurrence_def by blast
  have "i \<le> length content" using occurs_at_in_range [OF i(1)] by simp
  moreover have "match_here backend_pattern (drop i content) = Some gs"
    using i(1) g by (simp add: occurs_at_match_here)
  moreover have "\<forall>j<i. match_here backend_pattern (drop j content) = None"
    using i(2) by (simp add: no_match_iff)
  ultimately show ?L unfolding re_search_Some by blast
qed

lemma re_search_first_occurrenceD:
  "re_search backend_pattern content = Some [g] \<Longrightarrow> first_occurrence content g"
  by (simp add: re_search_first_occurrence)

lemma try_body_matched:
  assumes "read_text e p = Inr content" and "re_search backend_pattern content = Some (g # gs)"
  shows "try_body e p = (case py_float g of Inl x \<Rightarrow> Inl x | Inr v \<Rightarrow> Inr (Some v))"
  using assms by (simp add: try_body_def group1_def)

lemma re_search_no_occurrence:
  "re_search backend_pattern content = None \<longleftrightarrow> (\<forall>i h. \<not> occurs_at content i h)"
proof -
  have "(\<forall>i\<le>length content. \<forall>h. \<not> occurs_at content i h) \<longleftrightarrow> (\<forall>i h. \<not> occurs_at content i h)"
    using occurs_at_in_range by (meson less_imp_le_nat)
  then show ?thesis
    unfolding re_search_None by (simp add: no_match_iff)
qed

lemma first_occurrence_group: "first_occurrence content g \<Longrightarrow> list_all digit_or_dot g"
  unfolding first_occurrence_def occurs_at_def by blast

lemma extract_value_read:
  assumes "read_text e p = Inr content"
  shows "snd (extract_backend_bound e p) =
     (case re_search backend_pattern content of
        None \<Rightarrow> None
      | Some gs \<Rightarrow> (case gs of [] \<Rightarrow> None
                    | g # _ \<Rightarrow> (case py_float g of Inl x \<Rightarrow> None | Inr v \<Rightarrow> Some v)))"
  using assms
  by (simp add: extract_backend_bound_def try_body_def group1_def
      split: option.splits list.splits sum.splits)

lemma extract_value_first_occurrence:
  assumes "read_text e p = Inr content" and "first_occurrence content g"
  shows "snd (extract_backend_bound e p) =
     (if float_literal g then Some (round_double (literal_value g)) else None)"
proof -
  have "re_search backend_pattern content = Some [g]"
    using assms(2) by (simp add: re_search_first_occurrence)
  then show ?thesis
    using extract_value_read [OF assms(1)] py_float_cases [OF first_occurrence_group [OF assms(2)]]
    by simp
qed

lemma extract_value_no_occurrence:
  assumes "read_text e p = Inr content" and "\<forall>i h. \<not> occurs_at content i h"
  shows "snd (extract_backend_bound e p) = None"
proof -
  have "re_search backend_pattern content = None"
    using assms(2) by (simp add: re_search_no_occurrence)
  then show ?thesis
    using extract_value_read [OF assms(1)] by simp
qed

lemma extract_value_Some:
  assumes "snd (extract_backend_bound e p) = Some v"
  shows "\<exists>content g. read_text e p = Inr content \<and> first_occurrence content g
     \<and> float_literal g \<and> v = round_double (literal_value g)"
proof (cases "read_text e p")
  case (Inl x)
  then show ?thesis
    using assms by (simp add: extract_backend_bound_def try_body_def)
next
  case (Inr content)
  show ?thesis
  proof (cases "re_search backend_pattern content")
    case None
    then show ?thesis using assms extract_value_read [OF Inr] by simp
  next
    case (Some gs)
    then obtain g where g: "gs = [g]" "first_occurrence content g"
      using re_search_first_occurrence by blast
    then have "float_literal g \<and> v = round_double (literal_value g)"
      using assms extract_value_first_occurrence [OF Inr g(2)] by (auto split: if_splits)
    then show ?thesis using Inr g(2) by blast
  qed
qed

lemma extract_raises:
  assumes "try_body e p = Inl x"
  shows "extract_backend_bound e p = ([Open_read p, Print (Error_reading p x)], None)"
  using assms by (simp add: extract_backend_bound_def)

lemma try_body_read_error: "read_text e p = Inl x \<Longrightarrow> try_body e p = Inl x"
  by (simp add: try_body_def)

lemma extract_opens_once: "filter is_open_read (fst (extract_backend_bound e p)) = [Open_read p]"
  by (simp add: extract_backend_bound_def is_open_read_def split: sum.splits)

lemma first_occurrence_at_start:
  assumes "ws \<noteq> []" "list_all is_space ws" "g \<noteq> []" "list_all digit_or_dot g"
  shows "first_occurrence (''Back-End Bound:'' @ ws @ g @ ''%'' @ rest) g"
proof -
  have "occurs_at (''Back-End Bound:'' @ ws @ g @ ''%'' @ rest) 0 g"
    unfolding occurs_at_def using assms by (intro exI [of _ ws] exI [of _ rest]) simp
  then show ?thesis
    unfolding first_occurrence_def by (intro exI [of _ 0]) simp
qed

lemma overflowing_digits_props:
  shows "float_literal overflowing_digits"
    and "literal_value overflowing_digits = 10 ^ 309"
proof -
  have d: "list_all is_digit overflowing_digits"
    by (simp add: overflowing_digits_def is_digit_def list_all_iff)
  then have dd: "list_all digit_or_dot overflowing_digits"
    by (simp add: list_all_iff digit_or_dot_def)
  have ne: "overflowing_digits \<noteq> []" by (simp add: overflowing_digits_def)
  show "float_literal overflowing_digits"
    using d dd ne by (simp add: float_literal_def digits_no_dot list_ex_all_digit)
  have "filter is_digit overflowing_digits = overflowing_digits"
    using d by (simp add: list_all_iff)
  moreover have "dropWhile is_digit overflowing_digits = []"
    using d by (simp add: list_all_iff)
  ultimately show "literal_value overflowing_digits = 10 ^ 309"
    by (simp add: literal_value_def) (simp add: overflowing_digits_def nat_of_digits_one_zeros)
qed

lemma round_double_overflowing: "round_double (10 ^ 309) = PInf"
  using round_double_overflow_iff [of "10 ^ 309"] overflow_numeral by simp

text \<open>
  Claim C1, as the code has it. For every path: when the file is read,
  \<open>extract_backend_bound\<close> looks at the first occurrence of the one pattern \<^verbatim>\<open>Back-End Bound:\s+([\d.]+)%\<close> in the text: it returns
  the captured group parsed as a float (the double nearest to the decimal it writes) when the
  group is a float literal, and \<open>None\<close> when the group is not one (no digit, or more than one
  dot: \<^verbatim>\<open>float\<close> raises and the handler swallows it). It returns \<open>None\<close> whenever the pattern
  does not occur in the text, and when the read raises.
\<close>

theorem extract_backend_bound_first_occurrence:
  "(read_text e p = Inr content \<and> first_occurrence content g \<longrightarrow>
      snd (extract_backend_bound e p) =
        (if float_literal g then Some (round_double (literal_value g)) else None))
   \<and> (read_text e p = Inr content \<and> (\<forall>i h. \<not> occurs_at content i h) \<longrightarrow>
      snd (extract_backend_bound e p) = None)
   \<and> (read_text e p = Inl x \<longrightarrow> snd (extract_backend_bound e p) = None)"
proof -
  have "snd (extract_backend_bound e p) = None" if "read_text e p = Inl x"
    using extract_raises [OF try_body_read_error [OF that]] by simp
  then show ?thesis
    using extract_value_first_occurrence [of e p content g]
      extract_value_no_occurrence [of e p content]
    by blast
qed

theorem extract_backend_bound_first_occurrence_witness:
  "snd (extract_backend_bound
         (file_env ''f'' (Inr ''Back-End Bound: 31.5% of Pipeline Slots'')) ''f'')
     = Some (Fin (63 / 2))
   \<and> snd (extract_backend_bound (file_env ''f'' (Inr ''Front-End Bound: 31.5%'')) ''f'') = None
   \<and> snd (extract_backend_bound (file_env ''f'' (Inl (OSError ''EACCES''))) ''f'') = None"
proof -
  have r1: "read_text (file_env ''f'' (Inr ''Back-End Bound: 31.5% of Pipeline Slots'')) ''f''
      = Inr ''Back-End Bound: 31.5% of Pipeline Slots''"
    by (simp add: file_env_def)
  have r2: "read_text (file_env ''f'' (Inr ''Front-End Bound: 31.5%'')) ''f''
      = Inr ''Front-End Bound: 31.5%''"
    by (simp add: file_env_def)
  have r3: "read_text (file_env ''f'' (Inl (OSError ''EACCES''))) ''f'' = Inl (OSError ''EACCES'')"
    by (simp add: file_env_def)
  have "first_occurrence (''Back-End Bound:'' @ '' '' @ ''31.5'' @ ''%'' @ '' of Pipeline Slots'') ''31.5''"
    by (rule first_occurrence_at_start) (simp_all add: is_space_def digit_or_dot_def is_digit_def)
  then have f: "first_occurrence ''Back-End Bound: 31.5% of Pipeline Slots'' ''31.5''"
    by simp
  have l: "float_literal ''31.5''"
    by (simp add: float_literal_def digit_or_dot_def is_digit_def)
  have v: "literal_value ''31.5'' = 63 / 2"
    by (simp add: literal_value_def nat_of_digits_def digit_val_def is_digit_def)
  have rd: "round_double (63 / 2) = Fin (63 / 2)"
    using round_double_exact [of 63 "- 1"] by (simp add: pow2_def)
  have "re_search backend_pattern ''Front-End Bound: 31.5%'' = None"
    by code_simp
  then have n: "\<forall>i h. \<not> occurs_at ''Front-End Bound: 31.5%'' i h"
    by (rule re_search_no_occurrence [THEN iffD1])
  show ?thesis
    using extract_backend_bound_first_occurrence
        [of "file_env ''f'' (Inr ''Back-End Bound: 31.5% of Pipeline Slots'')" "''f''"
          "''Back-End Bound: 31.5% of Pipeline Slots''" "''31.5''"]
      extract_backend_bound_first_occurrence
        [of "file_env ''f'' (Inr ''Front-End Bound: 31.5%'')" "''f''" "''Front-End Bound: 31.5%''"]
      extract_backend_bound_first_occurrence
        [of "file_env ''f'' (Inl (OSError ''EACCES''))" "''f''" _ _ "OSError ''EACCES''"]
      r1 r2 r3 f l v rd n
    by simp
qed

theorem extract_backend_bound_unparsed_counterexample:
  "read_text (file_env ''f'' (Inr ''Back-End Bound: 1.2.3%'')) ''f'' = Inr ''Back-End Bound: 1.2.3%''
   \<and> first_occurrence ''Back-End Bound: 1.2.3%'' ''1.2.3''
   \<and> snd (extract_backend_bound (file_env ''f'' (Inr ''Back-End Bound: 1.2.3%'')) ''f'') = None"
proof -
  have r: "read_text (file_env ''f'' (Inr ''Back-End Bound: 1.2.3%'')) ''f''
      = Inr ''Back-End Bound: 1.2.3%''"
    by (simp add: file_env_def)
  have s: "re_search backend_pattern ''Back-End Bound: 1.2.3%'' = Some [''1.2.3'']"
    by code_simp
  then have f: "first_occurrence ''Back-End Bound: 1.2.3%'' ''1.2.3''"
    by (rule re_search_first_occurrenceD)
  have "\<not> float_literal ''1.2.3''"
    by (simp add: float_literal_def)
  then show ?thesis
    using r f extract_value_first_occurrence [OF r f] by simp
qed

text \<open>
  Claim C4. Every exception raised under \<^verbatim>\<open>try\<close>, in particular every exception of the
  read, is caught: \<open>extract_backend_bound\<close> prints the error line and returns \<open>None\<close>. Its
  result is always a value (a list of events and an optional float), never an exception, and
  the file is opened exactly once, whatever happens.
\<close>

theorem extract_backend_bound_catches:
  "(try_body e p = Inl x \<longrightarrow>
      extract_backend_bound e p = ([Open_read p, Print (Error_reading p x)], None))
   \<and> (read_text e p = Inl x \<longrightarrow>
      extract_backend_bound e p = ([Open_read p, Print (Error_reading p x)], None))
   \<and> filter is_open_read (fst (extract_backend_bound e p)) = [Open_read p]"
  using extract_raises [of e p x] try_body_read_error [of e p x] extract_opens_once [of e p]
  by blast

theorem extract_backend_bound_catches_witness:
  "extract_backend_bound (file_env ''f'' (Inl (OSError ''EACCES''))) ''f''
     = ([Open_read ''f'', Print (Error_reading ''f'' (OSError ''EACCES''))], None)
   \<and> extract_backend_bound (file_env ''f'' (Inr ''Back-End Bound: .%'')) ''f''
     = ([Open_read ''f'', Print (Error_reading ''f'' ValueError)], None)"
proof -
  have r: "read_text (file_env ''f'' (Inl (OSError ''EACCES''))) ''f'' = Inl (OSError ''EACCES'')"
    by (simp add: file_env_def)
  have s: "re_search backend_pattern ''Back-End Bound: .%'' = Some [''.'']"
    by code_simp
  have r2: "read_text (file_env ''f'' (Inr ''Back-End Bound: .%'')) ''f''
      = Inr ''Back-End Bound: .%''"
    by (simp add: file_env_def)
  have "py_float ''.'' = Inl ValueError"
    by (simp add: py_float_def is_digit_def)
  then have t: "try_body (file_env ''f'' (Inr ''Back-End Bound: .%'')) ''f'' = Inl ValueError"
    using try_body_matched [OF r2 s] by simp
  show ?thesis
    using extract_backend_bound_catches [of "file_env ''f'' (Inl (OSError ''EACCES''))" "''f''" "OSError ''EACCES''"]
      extract_backend_bound_catches [of "file_env ''f'' (Inr ''Back-End Bound: .%'')" "''f''" ValueError]
      r t
    by simp
qed

text \<open>
  Claim C8, as the code has it. A value returned by \<open>extract_backend_bound\<close> is the double
  nearest to the value of a float literal: it is never negative and never NaN. It is finite
  exactly when the literal is below \<open>2 ^ 1024 - 2 ^ 970\<close>; from there on \<^verbatim>\<open>float\<close> returns
  infinity.
\<close>

theorem extract_backend_bound_value_range:
  assumes "snd (extract_backend_bound e p) = Some v"
  shows "float_nonneg v
     \<and> (\<exists>g. float_literal g \<and> v = round_double (literal_value g)
            \<and> (float_finite v \<longleftrightarrow> literal_value g < pow2 1024 - pow2 970))"
proof -
  obtain content g where g: "float_literal g" "v = round_double (literal_value g)"
    using extract_value_Some [OF assms] by blast
  have "float_nonneg v"
    using round_double_nonneg [OF literal_value_nonneg, of g] g(2)
    by (auto simp: float_nonneg_def)
  moreover have "float_finite v \<longleftrightarrow> literal_value g < pow2 1024 - pow2 970"
    unfolding g(2) by (rule round_double_finite_iff) (rule literal_value_nonneg)
  ultimately show ?thesis using g by blast
qed

lemma overflow_run:
  "snd (extract_backend_bound
          (file_env ''f'' (Inr (''Back-End Bound: '' @ overflowing_digits @ ''%''))) ''f'')
     = Some PInf"
proof -
  let ?content = "''Back-End Bound: '' @ overflowing_digits @ ''%''"
  have r: "read_text (file_env ''f'' (Inr ?content)) ''f'' = Inr ?content"
    by (simp add: file_env_def)
  have dd: "list_all digit_or_dot overflowing_digits"
    using overflowing_digits_props(1) by (simp add: float_literal_def)
  have "first_occurrence (''Back-End Bound:'' @ '' '' @ overflowing_digits @ ''%'' @ []) overflowing_digits"
    using dd by (intro first_occurrence_at_start) (simp_all add: is_space_def overflowing_digits_def)
  then have f: "first_occurrence ?content overflowing_digits" by simp
  show ?thesis
    using extract_value_first_occurrence [OF r f] overflowing_digits_props round_double_overflowing
    by simp
qed

theorem extract_backend_bound_infinite_counterexample:
  "snd (extract_backend_bound
          (file_env ''f'' (Inr (''Back-End Bound: '' @ overflowing_digits @ ''%''))) ''f'')
     = Some PInf
   \<and> \<not> float_finite PInf"
  using overflow_run by (simp add: float_finite_def)

theorem extract_backend_bound_value_range_witness:
  "float_nonneg PInf
   \<and> (\<exists>g. float_literal g \<and> PInf = round_double (literal_value g)
          \<and> (float_finite PInf \<longleftrightarrow> literal_value g < pow2 1024 - pow2 970))"
  using extract_backend_bound_value_range [OF overflow_run] .

section \<open>The loop, the summary and the chart\<close>

lemma map_of_dict_set: "map_of (dict_set d k v) = (map_of d)(k \<mapsto> v)"
  by (induction d k v rule: dict_set.induct) auto

lemma keys_dict_set: "fst ` set (dict_set d k v) = insert k (fst ` set d)"
  by (induction d k v rule: dict_set.induct) auto

lemma distinct_dict_set: "distinct (map fst d) \<Longrightarrow> distinct (map fst (dict_set d k v))"
proof (induction d k v rule: dict_set.induct)
  case (1 k v)
  then show ?case by simp
next
  case (2 k' v' d k v)
  then show ?case
    using keys_dict_set [of d k v] by (auto simp: image_iff) 
qed

lemma scan_step:
  "snd (scan e b (a # rest) d) =
     snd (scan e b rest (case yields e b a of None \<Rightarrow> d | Some v \<Rightarrow> dict_set d a v))"
  by (simp add: yields_def summary_path_def Let_def emit_def split: prod.splits option.splits)

lemma scan_map_of:
  "map_of (snd (scan e b names d)) D =
     (if D \<in> set names \<and> yields e b D \<noteq> None then yields e b D else map_of d D)"
proof (induction names arbitrary: d)
  case Nil
  then show ?case by simp
next
  case (Cons a rest)
  show ?case
    unfolding scan_step Cons.IH
    by (auto simp: map_of_dict_set split: option.splits)
qed

lemma scan_keys:
  "fst ` set (snd (scan e b names d)) = fst ` set d \<union> {D \<in> set names. yields e b D \<noteq> None}"
proof (induction names arbitrary: d)
  case Nil
  then show ?case by simp
next
  case (Cons a rest)
  show ?case
    unfolding scan_step Cons.IH
    by (auto simp: keys_dict_set split: option.splits)
qed

lemma scan_distinct:
  "distinct (map fst d) \<Longrightarrow> distinct (map fst (snd (scan e b names d)))"
proof (induction names arbitrary: d)
  case Nil
  then show ?case by simp
next
  case (Cons a rest)
  have "distinct (map fst (case yields e b a of None \<Rightarrow> d | Some v \<Rightarrow> dict_set d a v))"
    using Cons.prems by (simp add: distinct_dict_set split: option.splits)
  then show ?case
    unfolding scan_step by (rule Cons.IH)
qed

lemma entities_sorted: "sorted (entities e b names)" "distinct (entities e b names)"
  by (simp_all add: entities_def sorted_filter [where f = "\<lambda>x. x", simplified])

lemma entities_set: "set (entities e b names) = {D \<in> set names. yields e b D \<noteq> None}"
  by (auto simp: entities_def)

lemma sorted_keys_scan:
  "sort (map fst (snd (scan e b (sort names) []))) = entities e b names"
proof (rule sorted_distinct_set_unique)
  let ?d = "snd (scan e b (sort names) [])"
  show "sorted (sort (map fst ?d))" by simp
  have "distinct (map fst ?d)" by (rule scan_distinct) simp
  then show "distinct (sort (map fst ?d))" by simp
  show "sorted (entities e b names)" "distinct (entities e b names)"
    by (rule entities_sorted)+
  show "set (sort (map fst ?d)) = set (entities e b names)"
    using scan_keys [of e b "sort names" "[]"] by (simp add: entities_set)
qed

lemma scan_lookup_entities:
  "D \<in> set (entities e b names) \<Longrightarrow> map_of (snd (scan e b (sort names) [])) D = yields e b D"
  by (simp add: scan_map_of entities_set)

lemma scan_empty_iff:
  "snd (scan e b (sort names) []) = [] \<longleftrightarrow> (\<forall>D\<in>set names. yields e b D = None)"
proof -
  have "snd (scan e b (sort names) []) = [] \<longleftrightarrow> fst ` set (snd (scan e b (sort names) [])) = {}"
    by simp
  then show ?thesis
    unfolding scan_keys by auto
qed

lemma plt_calls_append: "plt_calls (t @ u) = plt_calls t @ plt_calls u"
  by (induction t rule: plt_calls.induct) simp_all



lemma extract_events:
  "plt_calls (fst (extract_backend_bound e p)) = []"
  "filter is_os_isdir (fst (extract_backend_bound e p)) = []"
  "length (fst (extract_backend_bound e p)) \<le> 2"
  by (simp_all add: extract_backend_bound_def is_os_isdir_def split: sum.splits)

lemma extract_events_Some:
  "extract_backend_bound e p = (t, Some v) \<Longrightarrow> t = [Open_read p]"
  by (auto simp: extract_backend_bound_def split: sum.splits)

lemma scan_events_step:
  "\<exists>t. fst (scan e b (a # rest) d) = Os_isdir (path_join b a) # t @ fst (scan e b rest
          (case yields e b a of None \<Rightarrow> d | Some v \<Rightarrow> dict_set d a v))
       \<and> plt_calls t = [] \<and> filter is_os_isdir t = [] \<and> length t \<le> 3
       \<and> length (filter is_open_read t) \<le> 1"
proof -
  let ?p = "path_join (path_join b a) (a @ ''_topdown_summary.txt'')"
  obtain t r where x: "extract_backend_bound e ?p = (t, r)"
    by (cases "extract_backend_bound e ?p")
  have t: "plt_calls t = []" "filter is_os_isdir t = []" "length t \<le> 2"
    "filter is_open_read t = [Open_read ?p]"
    using extract_events [of e ?p] extract_opens_once [of e ?p] x by simp_all
  show ?thesis
  proof (cases r)
    case None
    then show ?thesis
      using x t
      by (auto simp: yields_def summary_path_def Let_def emit_def is_os_isdir_def
          is_open_read_def plt_calls_append)
  next
    case (Some v)
    then have "t = [Open_read ?p]" using x extract_events_Some by blast
    then show ?thesis
      using x Some
      by (auto simp: yields_def summary_path_def Let_def emit_def is_os_isdir_def
          is_open_read_def)
  qed
qed

lemma is_event_simps:
  "is_os_isdir (Os_isdir q)" "\<not> is_open_read (Os_isdir q)"
  by (simp_all add: is_os_isdir_def is_open_read_def)

lemma scan_events_all:
  "plt_calls (fst (scan e b names d)) = []
   \<and> length (filter is_os_isdir (fst (scan e b names d))) = length names
   \<and> length (filter is_open_read (fst (scan e b names d))) \<le> length names
   \<and> length (fst (scan e b names d)) \<le> 4 * length names"
proof (induction names arbitrary: d)
  case Nil
  then show ?case by simp
next
  case (Cons a rest)
  define d' where "d' = (case yields e b a of None \<Rightarrow> d | Some v \<Rightarrow> dict_set d a v)"
  obtain t where t: "fst (scan e b (a # rest) d) = Os_isdir (path_join b a) # t @ fst (scan e b rest d')"
       "plt_calls t = []" "filter is_os_isdir t = []" "length t \<le> 3"
       "length (filter is_open_read t) \<le> 1"
    using scan_events_step [of e b a rest d] unfolding d'_def by blast
  have ih: "plt_calls (fst (scan e b rest d')) = []"
    "length (filter is_os_isdir (fst (scan e b rest d'))) = length rest"
    "length (filter is_open_read (fst (scan e b rest d'))) \<le> length rest"
    "length (fst (scan e b rest d')) \<le> 4 * length rest"
    using Cons.IH [of d'] by simp_all
  show ?case
    unfolding t(1) using t(2-5) ih
    by (simp add: plt_calls_append is_event_simps)
qed

lemma scan_events:
  shows "plt_calls (fst (scan e b names d)) = []"
    and "length (filter is_os_isdir (fst (scan e b names d))) = length names"
    and "length (filter is_open_read (fst (scan e b names d))) \<le> length names"
    and "length (fst (scan e b names d)) \<le> 4 * length names"
  using scan_events_all [of e b names d] by simp_all

lemma mapE_dict_get:
  assumes "set ks \<subseteq> fst ` set d"
  shows "\<exists>vs. mapE (dict_get d) ks = Inr vs \<and> map (map_of d) ks = map Some vs"
  using assms
proof (induction ks)
  case Nil
  then show ?case by simp
next
  case (Cons k ks)
  then obtain vs where vs: "mapE (dict_get d) ks = Inr vs" "map (map_of d) ks = map Some vs"
    by auto
  have "k \<in> fst ` set d" using Cons.prems by simp
  then obtain v where v: "map_of d k = Some v"
    by (metis domD dom_map_of_conv_image_fst)
  then have "dict_get d k = Inr v" by (simp add: dict_get_def)
  then have "mapE (dict_get d) (k # ks) = Inr (v # vs)"
    using vs(1) by simp
  moreover have "map (map_of d) (k # ks) = map Some (v # vs)"
    using v vs(2) by simp
  ultimately show ?case by blast
qed

lemma print_rows_ok:
  assumes "n + length as \<le> length vals"
  shows "print_rows vals (enumerate n as)
     = (map (\<lambda>(app, v). Row (get_full_app_name app) v) (zip as (drop n vals)), None)"
  using assms
proof (induction as arbitrary: n)
  case Nil
  then show ?case by simp
next
  case (Cons a as)
  have n: "n < length vals" using Cons.prems by simp
  then have d: "drop n vals = vals ! n # drop (Suc n) vals"
    by (simp add: Cons_nth_drop_Suc)
  have "Suc n + length as \<le> length vals" using Cons.prems by simp
  then show ?case
    using Cons.IH [of "Suc n"] n by (simp add: getitem_def d)
qed

lemma summarise_ok:
  assumes "distinct (map fst d)" and "d \<noteq> []"
  shows "\<exists>vs. map (map_of d) (sort (map fst d)) = map Some vs
     \<and> summarise d = Inr \<lparr>apps = sort (map fst d) @ [''Average''],
          values' = vs @ [float_div (py_sum vs) (length vs)],
          average_value = float_div (py_sum vs) (length vs),
          apps_labels = map get_full_app_name (sort (map fst d)) @ [average_label]\<rparr>"
proof -
  obtain vs where vs: "mapE (dict_get d) (sort (map fst d)) = Inr vs"
      "map (map_of d) (sort (map fst d)) = map Some vs"
    using mapE_dict_get [of "sort (map fst d)" d] by auto
  have "length vs = length d"
    using arg_cong [OF vs(2), of length] by simp
  then have "length vs \<noteq> 0" using assms(2) by simp
  then show ?thesis
    using vs by (simp add: summarise_def py_truediv_def Let_def)
qed

lemma summary_lines_ok:
  assumes "length vs = length ks"
  shows "summary_lines \<lparr>apps = ks @ [''Average''], values' = vs @ [avg], average_value = avg,
            apps_labels = ls\<rparr>
     = ([Summary_title, Table_header, Rule]
        @ map (\<lambda>(app, v). Row (get_full_app_name app) v) (zip ks vs)
        @ [Rule, Average_row avg], None)"
proof -
  have "zip ks (vs @ [avg]) = zip ks vs"
    using zip_append [of ks vs "[]" "[avg]"] assms by simp
  then show ?thesis
    using assms print_rows_ok [of 0 ks "vs @ [avg]"]
    by (simp add: summary_lines_def)
qed

lemma py_max_nonempty: "vs \<noteq> [] \<Longrightarrow> \<exists>m. py_max vs = Inr m"
  by (cases vs) (simp_all add: py_max_def)

lemma chart_ok:
  assumes "values' s \<noteq> []"
  shows "\<exists>calls. chart s = (calls, None)
     \<and> filter is_key_call calls =
         [Bar [0..<length (apps s)] (values' s), Set_xticks [0..<length (apps s)],
          Set_xticklabels (apps_labels s), Savefig ''backend_bound_plot.png'',
          Savefig ''backend_bound_plot.pdf'', Savefig ''backend_bound_plot.eps'']
     \<and> length calls \<le> 29"
proof -
  obtain m where "py_max (values' s) = Inr m"
    using py_max_nonempty [OF assms] by blast
  then show ?thesis
    by (simp add: chart_def Let_def spines_def)
qed

lemma report_ok:
  assumes "distinct (map fst d)" and "d \<noteq> []"
  shows "\<exists>vs calls. map (map_of d) (sort (map fst d)) = map Some vs
     \<and> summarise d = Inr \<lparr>apps = sort (map fst d) @ [''Average''],
          values' = vs @ [float_div (py_sum vs) (length vs)],
          average_value = float_div (py_sum vs) (length vs),
          apps_labels = map get_full_app_name (sort (map fst d)) @ [average_label]\<rparr>
     \<and> filter is_key_call calls =
         [Bar [0..<Suc (length d)] (vs @ [float_div (py_sum vs) (length vs)]),
          Set_xticks [0..<Suc (length d)],
          Set_xticklabels (map get_full_app_name (sort (map fst d)) @ [average_label]),
          Savefig ''backend_bound_plot.png'',
          Savefig ''backend_bound_plot.pdf'', Savefig ''backend_bound_plot.eps'']
     \<and> length calls \<le> 29
     \<and> report d =
         (map Print ([Summary_title, Table_header, Rule]
                     @ map (\<lambda>(app, v). Row (get_full_app_name app) v) (zip (sort (map fst d)) vs)
                     @ [Rule, Average_row (float_div (py_sum vs) (length vs))])
          @ map Plt calls
          @ map Print [Saved_title, Saved_file ''backend_bound_plot.png'',
                       Saved_file ''backend_bound_plot.pdf'',
                       Saved_file ''backend_bound_plot.eps'']
          @ [Plt Show], Returned)"
proof -
  define ks where "ks = sort (map fst d)"
  obtain vs where vs: "map (map_of d) ks = map Some vs"
    and s: "summarise d = Inr \<lparr>apps = ks @ [''Average''],
          values' = vs @ [float_div (py_sum vs) (length vs)],
          average_value = float_div (py_sum vs) (length vs),
          apps_labels = map get_full_app_name ks @ [average_label]\<rparr>"
    using summarise_ok [OF assms] unfolding ks_def by blast
  define avg where "avg = float_div (py_sum vs) (length vs)"
  define S where "S = \<lparr>apps = ks @ [''Average''], values' = vs @ [avg], average_value = avg,
          apps_labels = map get_full_app_name ks @ [average_label]\<rparr>"
  have len: "length vs = length ks"
    using arg_cong [OF vs, of length] by simp
  have lk: "length ks = length d" by (simp add: ks_def)
  have sl: "summary_lines S = ([Summary_title, Table_header, Rule]
            @ map (\<lambda>(app, v). Row (get_full_app_name app) v) (zip ks vs)
            @ [Rule, Average_row avg], None)"
    unfolding S_def by (rule summary_lines_ok [OF len])
  have "values' S \<noteq> []" by (simp add: S_def)
  then obtain calls where c: "chart S = (calls, None)"
     "filter is_key_call calls =
         [Bar [0..<length (apps S)] (values' S), Set_xticks [0..<length (apps S)],
          Set_xticklabels (apps_labels S), Savefig ''backend_bound_plot.png'',
          Savefig ''backend_bound_plot.pdf'', Savefig ''backend_bound_plot.eps'']"
     "length calls \<le> 29"
    using chart_ok [of S] by blast
  have sS: "summarise d = Inr S" using s by (simp add: S_def avg_def)
  have "report d =
         (map Print ([Summary_title, Table_header, Rule]
                     @ map (\<lambda>(app, v). Row (get_full_app_name app) v) (zip ks vs)
                     @ [Rule, Average_row avg])
          @ map Plt calls
          @ map Print [Saved_title, Saved_file ''backend_bound_plot.png'',
                       Saved_file ''backend_bound_plot.pdf'',
                       Saved_file ''backend_bound_plot.eps'']
          @ [Plt Show], Returned)"
    by (simp add: report_def sS sl c(1))
  moreover have "filter is_key_call calls =
         [Bar [0..<Suc (length d)] (vs @ [avg]), Set_xticks [0..<Suc (length d)],
          Set_xticklabels (map get_full_app_name ks @ [average_label]),
          Savefig ''backend_bound_plot.png'',
          Savefig ''backend_bound_plot.pdf'', Savefig ''backend_bound_plot.eps'']"
    using c(2) by (simp add: S_def lk)
  ultimately show ?thesis
    using vs s c(3) unfolding ks_def avg_def by blast
qed

lemma main_not_found:
  assumes "\<not> path_exists e (base_dir_of e)"
  shows "main e = ([Os_exists (base_dir_of e), Print (Dir_not_found (base_dir_of e)),
                    Print (Usage (argv0 e))], Sys_exit 1)"
  using assms by (simp add: main_def Let_def)

lemma main_listdir_raises:
  assumes "path_exists e (base_dir_of e)" and "listdir e (base_dir_of e) = Inl x"
  shows "main e = ([Os_exists (base_dir_of e), Os_listdir (base_dir_of e)], Uncaught x)"
  using assms by (simp add: main_def Let_def)

lemma main_listed:
  assumes "path_exists e (base_dir_of e)" and "listdir e (base_dir_of e) = Inr names"
    and "scan e (base_dir_of e) (sort names) [] = (t, d)"
  shows "main e =
     (if d = []
      then ([Os_exists (base_dir_of e), Os_listdir (base_dir_of e)] @ t @ [Print No_data],
            Sys_exit 1)
      else ([Os_exists (base_dir_of e), Os_listdir (base_dir_of e)] @ t @ fst (report d),
            snd (report d)))"
  using assms by (simp add: main_def Let_def split: prod.splits)

lemma main_no_data:
  assumes "path_exists e (base_dir_of e)" and "listdir e (base_dir_of e) = Inr names"
    and "snd (scan e (base_dir_of e) (sort names) []) = []"
  shows "main e = ([Os_exists (base_dir_of e), Os_listdir (base_dir_of e)]
                   @ fst (scan e (base_dir_of e) (sort names) []) @ [Print No_data], Sys_exit 1)"
proof -
  obtain t d where td: "scan e (base_dir_of e) (sort names) [] = (t, d)"
    by (cases "scan e (base_dir_of e) (sort names) []")
  then have "d = []" using assms(3) by simp
  then show ?thesis
    using main_listed [OF assms(1,2) td] td by simp
qed

lemma main_data:
  assumes "path_exists e (base_dir_of e)" and "listdir e (base_dir_of e) = Inr names"
    and "snd (scan e (base_dir_of e) (sort names) []) \<noteq> []"
  shows "main e = ([Os_exists (base_dir_of e), Os_listdir (base_dir_of e)]
                   @ fst (scan e (base_dir_of e) (sort names) [])
                   @ fst (report (snd (scan e (base_dir_of e) (sort names) []))),
                   snd (report (snd (scan e (base_dir_of e) (sort names) []))))"
proof -
  obtain t d where td: "scan e (base_dir_of e) (sort names) [] = (t, d)"
    by (cases "scan e (base_dir_of e) (sort names) []")
  then have "d \<noteq> []" using assms(3) by simp
  then show ?thesis
    using main_listed [OF assms(1,2) td] td by simp
qed

section \<open>Properties of main\<close>

lemma main_success:
  assumes ex: "path_exists e (base_dir_of e)" and ls: "listdir e (base_dir_of e) = Inr names"
    and D: "D \<in> set names" and y: "yields e (base_dir_of e) D = Some v"
  shows "\<exists>vs calls. map (yields e (base_dir_of e)) (entities e (base_dir_of e) names) = map Some vs
     \<and> vs \<noteq> []
     \<and> summarise (snd (scan e (base_dir_of e) (sort names) [])) =
         Inr \<lparr>apps = entities e (base_dir_of e) names @ [''Average''],
              values' = vs @ [float_div (py_sum vs) (length vs)],
              average_value = float_div (py_sum vs) (length vs),
              apps_labels = map get_full_app_name (entities e (base_dir_of e) names)
                            @ [average_label]\<rparr>
     \<and> filter is_key_call calls =
         [Bar [0..<Suc (length vs)] (vs @ [float_div (py_sum vs) (length vs)]),
          Set_xticks [0..<Suc (length vs)],
          Set_xticklabels (map get_full_app_name (entities e (base_dir_of e) names)
                           @ [average_label]),
          Savefig ''backend_bound_plot.png'',
          Savefig ''backend_bound_plot.pdf'', Savefig ''backend_bound_plot.eps'']
     \<and> length calls \<le> 29
     \<and> main e =
         ([Os_exists (base_dir_of e), Os_listdir (base_dir_of e)]
          @ fst (scan e (base_dir_of e) (sort names) [])
          @ map Print ([Summary_title, Table_header, Rule]
                     @ map (\<lambda>(app, v). Row (get_full_app_name app) v)
                         (zip (entities e (base_dir_of e) names) vs)
                     @ [Rule, Average_row (float_div (py_sum vs) (length vs))])
          @ map Plt calls
          @ map Print [Saved_title, Saved_file ''backend_bound_plot.png'',
                       Saved_file ''backend_bound_plot.pdf'',
                       Saved_file ''backend_bound_plot.eps'']
          @ [Plt Show], Returned)"
proof -
  define b where "b = base_dir_of e"
  define d where "d = snd (scan e b (sort names) [])"
  define ents where "ents = entities e b names"
  have dist: "distinct (map fst d)"
    unfolding d_def by (rule scan_distinct) simp
  have ne: "d \<noteq> []"
    using D y scan_empty_iff [of e b names] unfolding d_def b_def by auto
  have ks: "sort (map fst d) = ents"
    unfolding d_def ents_def by (rule sorted_keys_scan)
  obtain vs calls where r: "map (map_of d) ents = map Some vs"
     "summarise d = Inr \<lparr>apps = ents @ [''Average''],
          values' = vs @ [float_div (py_sum vs) (length vs)],
          average_value = float_div (py_sum vs) (length vs),
          apps_labels = map get_full_app_name ents @ [average_label]\<rparr>"
     "filter is_key_call calls =
         [Bar [0..<Suc (length d)] (vs @ [float_div (py_sum vs) (length vs)]),
          Set_xticks [0..<Suc (length d)],
          Set_xticklabels (map get_full_app_name ents @ [average_label]),
          Savefig ''backend_bound_plot.png'',
          Savefig ''backend_bound_plot.pdf'', Savefig ''backend_bound_plot.eps'']"
     "length calls \<le> 29"
     "report d =
         (map Print ([Summary_title, Table_header, Rule]
                     @ map (\<lambda>(app, v). Row (get_full_app_name app) v) (zip ents vs)
                     @ [Rule, Average_row (float_div (py_sum vs) (length vs))])
          @ map Plt calls
          @ map Print [Saved_title, Saved_file ''backend_bound_plot.png'',
                       Saved_file ''backend_bound_plot.pdf'',
                       Saved_file ''backend_bound_plot.eps'']
          @ [Plt Show], Returned)"
    using report_ok [OF dist ne] unfolding ks by blast
  have "map (map_of d) ents = map (yields e b) ents"
    unfolding d_def ents_def by (rule map_cong [OF refl]) (rule scan_lookup_entities)
  then have yv: "map (yields e b) ents = map Some vs" using r(1) by simp
  have len: "length vs = length d"
    using arg_cong [OF r(1), of length] arg_cong [OF ks, of length] by simp
  then have vne: "vs \<noteq> []" using ne by auto
  have m: "main e = ([Os_exists b, Os_listdir b] @ fst (scan e b (sort names) []) @ fst (report d),
                     snd (report d))"
    unfolding d_def b_def using ne unfolding d_def b_def by (intro main_data [OF ex ls])
  show ?thesis
    using yv vne r(2,3,4) m unfolding r(5) len [symmetric]
    unfolding b_def [symmetric] ents_def [symmetric] d_def [symmetric]
    by (intro exI [of _ vs] exI [of _ calls]) simp
qed

lemma round_double_numeral:
  "(numeral k :: nat) < 2 ^ 53 \<Longrightarrow> round_double (numeral k) = Fin (numeral k)"
  using round_double_of_nat [of "numeral k"] by simp

lemma results_env_base:
  "base_dir_of (results_env L) = ''r''" "path_exists (results_env L) ''r''"
  "listdir (results_env L) ''r'' = Inr L"
  by (simp_all add: base_dir_of_def sys_argv_def results_env_def)

lemma results_env_x: "yields (results_env L) ''r'' ''x'' = Some (Fin 12)"
proof -
  have p: "summary_path ''r'' ''x'' = ''r/x/x_topdown_summary.txt''"
    "path_join ''r'' ''x'' = ''r/x''"
    by (simp_all add: summary_path_def path_join_def)
  have r: "read_text (results_env L) ''r/x/x_topdown_summary.txt'' = Inr ''Back-End Bound: 12%''"
    by (simp add: results_env_def)
  have "first_occurrence (''Back-End Bound:'' @ '' '' @ ''12'' @ ''%'' @ []) ''12''"
    by (rule first_occurrence_at_start) (simp_all add: is_space_def digit_or_dot_def is_digit_def)
  then have f: "first_occurrence ''Back-End Bound: 12%'' ''12''" by simp
  have l: "float_literal ''12''"
    by (simp add: float_literal_def digit_or_dot_def is_digit_def)
  have v: "literal_value ''12'' = 12"
    by (simp add: literal_value_def nat_of_digits_def digit_val_def is_digit_def)
  have "snd (extract_backend_bound (results_env L) ''r/x/x_topdown_summary.txt'') = Some (Fin 12)"
    using extract_value_first_occurrence [OF r f] l v by (simp add: round_double_numeral)
  then show ?thesis
    by (simp add: yields_def p) (simp add: results_env_def)
qed

lemma results_env_bfs:
  "yields (results_env L) ''r'' ''bfs_gnutella31'' = Some (Fin 30)"
proof -
  have p: "summary_path ''r'' ''bfs_gnutella31''
        = ''r/bfs_gnutella31/bfs_gnutella31_topdown_summary.txt''"
    "path_join ''r'' ''bfs_gnutella31'' = ''r/bfs_gnutella31''"
    by (simp_all add: summary_path_def path_join_def)
  have r: "read_text (results_env L) ''r/bfs_gnutella31/bfs_gnutella31_topdown_summary.txt''
        = Inr ''Back-End Bound: 30% of Pipeline Slots''"
    by (simp add: results_env_def)
  have "first_occurrence (''Back-End Bound:'' @ '' '' @ ''30'' @ ''%'' @ '' of Pipeline Slots'') ''30''"
    by (rule first_occurrence_at_start) (simp_all add: is_space_def digit_or_dot_def is_digit_def)
  then have f: "first_occurrence ''Back-End Bound: 30% of Pipeline Slots'' ''30''" by simp
  have l: "float_literal ''30''"
    by (simp add: float_literal_def digit_or_dot_def is_digit_def)
  have v: "literal_value ''30'' = 30"
    by (simp add: literal_value_def nat_of_digits_def digit_val_def is_digit_def)
  have "snd (extract_backend_bound (results_env L)
          ''r/bfs_gnutella31/bfs_gnutella31_topdown_summary.txt'') = Some (Fin 30)"
    using extract_value_first_occurrence [OF r f] l v by (simp add: round_double_numeral)
  then show ?thesis
    by (simp add: yields_def p) (simp add: results_env_def)
qed

lemma results_env_none:
  "yields (results_env L) ''r'' ''empty'' = None"
  "yields (results_env L) ''r'' ''notes.txt'' = None"
  by (simp_all add: yields_def summary_path_def path_join_def results_env_def)

lemma demo_entities: "entities (results_env L) ''r'' demo_listing = [''bfs_gnutella31'', ''x'']"
proof -
  have "sort demo_listing = [''bfs_gnutella31'', ''empty'', ''notes.txt'', ''x'']"
    unfolding demo_listing_def by code_simp
  then show ?thesis
    by (simp add: entities_def results_env_x results_env_bfs results_env_none)
qed


lemma filter_events_map:
  "filter is_os_isdir (map Print ls) = []" "filter is_os_isdir (map Plt cs) = []"
  "filter is_open_read (map Print ls) = []" "filter is_open_read (map Plt cs) = []"
  by (induction ls; induction cs; simp add: is_os_isdir_def is_open_read_def)+


lemma sort_mset_cong: "mset xs = mset ys \<Longrightarrow> sort xs = sort ys"
  by (rule properties_for_sort) simp_all

lemma extract_cong:
  "read_text e' = read_text e \<Longrightarrow> extract_backend_bound e' p = extract_backend_bound e p"
  by (simp add: extract_backend_bound_def try_body_def)

lemma scan_cong:
  assumes "read_text e' = read_text e" "path_isdir e' = path_isdir e"
    "path_exists e' = path_exists e"
  shows "scan e' b names d = scan e b names d"
proof (induction names arbitrary: d)
  case Nil
  then show ?case by simp
next
  case (Cons a rest)
  show ?case
    by (simp only: scan.simps assms extract_cong [OF assms(1)] Cons.IH)
qed

lemma entities_cong: "mset names' = mset names \<Longrightarrow> entities e b names' = entities e b names"
  using sort_mset_cong [of names' names] by (simp add: entities_def)

lemma entities_length: "length (entities e b names) \<le> length names"
proof -
  have "length (entities e b names) \<le> length (remdups (sort names))"
    unfolding entities_def by (rule length_filter_le)
  also have "\<dots> \<le> length (sort names)" by (rule length_remdups_leq)
  finally show ?thesis by simp
qed



text \<open>
  Claim C3. The data aggregated by the loop of \<open>main\<close> over the sorted listing, started on the
  empty dictionary, has no key twice, and it holds the entry \<open>(D, v)\<close> exactly when \<open>D\<close> is a
  name of the listing, \<open>D\<close> is a directory, the file \<^verbatim>\<open>D/D_topdown_summary.txt\<close> exists and
  \<open>extract_backend_bound\<close> returns \<open>v\<close> for it. Names that are no directory, directories
  without the file and files without an extractable metric contribute nothing.
\<close>

theorem scan_aggregates:
  "distinct (map fst (snd (scan e b (sort names) [])))
   \<and> (map_of (snd (scan e b (sort names) [])) D = Some v \<longleftrightarrow>
        D \<in> set names \<and> path_isdir e (path_join b D) \<and> path_exists e (summary_path b D)
        \<and> snd (extract_backend_bound e (summary_path b D)) = Some v)"
proof -
  have "distinct (map fst (snd (scan e b (sort names) [])))"
    by (rule scan_distinct) simp
  moreover have "map_of (snd (scan e b (sort names) [])) D = Some v \<longleftrightarrow>
        D \<in> set names \<and> path_isdir e (path_join b D) \<and> path_exists e (summary_path b D)
        \<and> snd (extract_backend_bound e (summary_path b D)) = Some v"
    by (auto simp: scan_map_of yields_def split: if_splits)
  ultimately show ?thesis by blast
qed

theorem scan_aggregates_witness:
  "map_of (snd (scan (results_env demo_listing) ''r'' (sort demo_listing) [])) ''x'' = Some (Fin 12)
   \<and> map_of (snd (scan (results_env demo_listing) ''r'' (sort demo_listing) [])) ''empty''
       \<noteq> Some (Fin 12)
   \<and> distinct (map fst (snd (scan (results_env demo_listing) ''r'' (sort demo_listing) [])))"
proof -
  have x: "''x'' \<in> set demo_listing" by (simp add: demo_listing_def)
  have y: "path_isdir (results_env demo_listing) (path_join ''r'' ''x'')
      \<and> path_exists (results_env demo_listing) (summary_path ''r'' ''x'')
      \<and> snd (extract_backend_bound (results_env demo_listing) (summary_path ''r'' ''x''))
          = Some (Fin 12)"
    using results_env_x [of demo_listing] by (simp add: yields_def split: if_splits)
  have n: "\<not> path_exists (results_env demo_listing) (summary_path ''r'' ''empty'')"
    by (simp add: summary_path_def path_join_def results_env_def)
  show ?thesis
    using scan_aggregates [of "results_env demo_listing" "''r''" demo_listing "''x''" "Fin 12"]
      scan_aggregates [of "results_env demo_listing" "''r''" demo_listing "''empty''" "Fin 12"]
      x y n
    by blast
qed





lemma is_event_simps2:
  "\<not> is_os_isdir (Os_exists q)" "\<not> is_os_isdir (Os_listdir q)" "\<not> is_os_isdir (Print l)"
  "\<not> is_os_isdir (Plt c)"
  "\<not> is_open_read (Os_exists q)" "\<not> is_open_read (Os_listdir q)" "\<not> is_open_read (Print l)"
  "\<not> is_open_read (Plt c)"
  by (simp_all add: is_os_isdir_def is_open_read_def)

lemma scan_nonempty_entity:
  assumes "snd (scan e b (sort names) []) \<noteq> []"
  shows "\<exists>D v. D \<in> set names \<and> yields e b D = Some v"
  using assms scan_empty_iff [of e b names] by auto

lemma summarise_apps:
  "summarise d = Inr s \<Longrightarrow>
     apps s = sort (map fst d) @ [''Average''] \<and> length (values' s) = length (apps s)"
proof -
  assume a: "summarise d = Inr s"
  then obtain vs where vs: "mapE (dict_get d) (sort (map fst d)) = Inr vs"
    by (auto simp: summarise_def Let_def split: sum.splits)
  have "length ys = length xs" if "mapE f xs = Inr ys" for f :: "string \<Rightarrow> exn + pyfloat" and xs ys
    using that by (induction xs arbitrary: ys) (auto split: sum.splits)
  then have "length vs = length (sort (map fst d))" using vs by blast
  then show ?thesis
    using a vs by (auto simp: summarise_def Let_def split: sum.splits)
qed

lemma main_listed_bounds:
  assumes ex: "path_exists e (base_dir_of e)" and ls: "listdir e (base_dir_of e) = Inr names"
  shows "length (filter is_os_isdir (fst (main e))) = length names
     \<and> length (filter is_open_read (fst (main e))) \<le> length names
     \<and> length (fst (main e)) \<le> 5 * length names + 41"
proof (cases "snd (scan e (base_dir_of e) (sort names) []) = []")
  case True
  show ?thesis
    unfolding main_no_data [OF ex ls True]
    using scan_events(2,3,4) [of e "base_dir_of e" "sort names" "[]"]
    by (simp add: is_event_simps2)
next
  case False
  then obtain D v where D: "D \<in> set names" "yields e (base_dir_of e) D = Some v"
    using scan_nonempty_entity by blast
  obtain vs calls where c: "length calls \<le> 29"
    and m: "main e =
         ([Os_exists (base_dir_of e), Os_listdir (base_dir_of e)]
          @ fst (scan e (base_dir_of e) (sort names) [])
          @ map Print ([Summary_title, Table_header, Rule]
                     @ map (\<lambda>(app, v). Row (get_full_app_name app) v)
                         (zip (entities e (base_dir_of e) names) vs)
                     @ [Rule, Average_row (float_div (py_sum vs) (length vs))])
          @ map Plt calls
          @ map Print [Saved_title, Saved_file ''backend_bound_plot.png'',
                       Saved_file ''backend_bound_plot.pdf'',
                       Saved_file ''backend_bound_plot.eps'']
          @ [Plt Show], Returned)"
    using main_success [OF ex ls D] by blast
  have z: "length (zip (entities e (base_dir_of e) names) vs) \<le> length names"
    using entities_length [of e "base_dir_of e" names] by simp
  show ?thesis
    unfolding m
    using scan_events(2,3,4) [of e "base_dir_of e" "sort names" "[]"] c z
    by (simp add: is_event_simps2 filter_events_map del: map_append map_map)
qed

text \<open>
  Claim C7. \<open>main\<close> is a total function of the environment: every loop of the model is a
  recursion over a finite list, so a run always ends, and it ends after a number of effects
  linear in the length of the listing: three when the base directory is missing, two when the
  listing raises, and otherwise one \<^verbatim>\<open>isdir\<close> test per name of the listing, at most one
  file read per name, and at most \<open>5 * n + 41\<close> effects in all. No path is tried twice.
\<close>

theorem main_single_pass:
  "(\<exists>t st. main e = (t, st))
   \<and> (\<not> path_exists e (base_dir_of e) \<longrightarrow> length (fst (main e)) = 3)
   \<and> (path_exists e (base_dir_of e) \<and> listdir e (base_dir_of e) = Inl x \<longrightarrow>
        length (fst (main e)) = 2)
   \<and> (path_exists e (base_dir_of e) \<and> listdir e (base_dir_of e) = Inr names \<longrightarrow>
        length (filter is_os_isdir (fst (main e))) = length names
        \<and> length (filter is_open_read (fst (main e))) \<le> length names
        \<and> length (fst (main e)) \<le> 5 * length names + 41)"
proof -
  have "\<exists>t st. main e = (t, st)" by (cases "main e") blast
  moreover have "length (fst (main e)) = 3" if "\<not> path_exists e (base_dir_of e)"
    using main_not_found [OF that] by simp
  moreover have "length (fst (main e)) = 2"
    if "path_exists e (base_dir_of e)" "listdir e (base_dir_of e) = Inl x"
    using main_listdir_raises [OF that] by simp
  ultimately show ?thesis
    using main_listed_bounds [of e names] by blast
qed

theorem main_single_pass_witness:
  "length (fst (main (file_env ''f'' (Inl (OSError ''EACCES''))))) = 3
   \<and> length (fst (main ((results_env [])\<lparr>listdir := \<lambda>q. Inl (OSError ''ENOTDIR'')\<rparr>))) = 2
   \<and> length (filter is_os_isdir (fst (main (results_env demo_listing)))) = 4
   \<and> length (fst (main (results_env demo_listing))) \<le> 61"
proof -
  have a: "\<not> path_exists (file_env ''f'' (Inl (OSError ''EACCES'')))
      (base_dir_of (file_env ''f'' (Inl (OSError ''EACCES''))))"
    by (simp add: file_env_def base_dir_of_def sys_argv_def)
  have b: "path_exists ((results_env [])\<lparr>listdir := \<lambda>q. Inl (OSError ''ENOTDIR'')\<rparr>)
      (base_dir_of ((results_env [])\<lparr>listdir := \<lambda>q. Inl (OSError ''ENOTDIR'')\<rparr>))
    \<and> listdir ((results_env [])\<lparr>listdir := \<lambda>q. Inl (OSError ''ENOTDIR'')\<rparr>)
      (base_dir_of ((results_env [])\<lparr>listdir := \<lambda>q. Inl (OSError ''ENOTDIR'')\<rparr>))
      = Inl (OSError ''ENOTDIR'')"
    by (simp add: results_env_def base_dir_of_def sys_argv_def)
  have c: "path_exists (results_env demo_listing) (base_dir_of (results_env demo_listing))
    \<and> listdir (results_env demo_listing) (base_dir_of (results_env demo_listing))
      = Inr demo_listing"
    by (simp add: results_env_base)
  have l: "length demo_listing = 4" by (simp add: demo_listing_def)
  show ?thesis
    using main_single_pass [of "file_env ''f'' (Inl (OSError ''EACCES''))"]
      main_single_pass [of "(results_env [])\<lparr>listdir := \<lambda>q. Inl (OSError ''ENOTDIR'')\<rparr>"
        "OSError ''ENOTDIR''"]
      main_single_pass [of "results_env demo_listing" _ demo_listing] a b c l
    by simp
qed



text \<open>
  Claim C10. Two runs over the same file system whose directory listings are permutations of
  each other have the same effects and the same result: \<open>main\<close> sorts the listing before it
  looks at it. The entities appear in strictly ascending order of directory name, and in the
  summary the name \<^verbatim>\<open>Average\<close> comes after them, in the last position.
\<close>

theorem main_listing_order:
  assumes "listdir e (base_dir_of e) = Inr names" and "mset names' = mset names"
  shows "main (e\<lparr>listdir := (listdir e)(base_dir_of e := Inr names')\<rparr>) = main e
     \<and> entities e (base_dir_of e) names' = entities e (base_dir_of e) names
     \<and> sorted_wrt (<) (entities e (base_dir_of e) names)
     \<and> (\<forall>s. summarise (snd (scan e (base_dir_of e) (sort names) [])) = Inr s \<longrightarrow>
           apps s = entities e (base_dir_of e) names @ [''Average'']
           \<and> length (values' s) = length (apps s))"
proof -
  define b where "b = base_dir_of e"
  define e' where "e' = e\<lparr>listdir := (listdir e)(b := Inr names')\<rparr>"
  have b': "base_dir_of e' = b"
    by (simp add: e'_def b_def base_dir_of_def sys_argv_def)
  have l': "listdir e' b = Inr names'" by (simp add: e'_def)
  have l: "listdir e b = Inr names" using assms(1) by (simp add: b_def)
  have so: "sort names' = sort names" using assms(2) by (rule sort_mset_cong)
  have sc: "scan e' b (sort names) [] = scan e b (sort names) []"
    by (rule scan_cong) (simp_all add: e'_def)
  have px: "path_exists e' = path_exists e" and a0: "argv0 e' = argv0 e"
    by (simp_all add: e'_def)
  have "main e' = main e"
  proof (cases "path_exists e b")
    case False
    then have "\<not> path_exists e' (base_dir_of e')" "\<not> path_exists e (base_dir_of e)"
      by (simp_all add: px b' b_def [symmetric])
    then show ?thesis
      using main_not_found [of e'] main_not_found [of e] by (simp add: b' a0 b_def [symmetric])
  next
    case True
    obtain t d where td: "scan e b (sort names) [] = (t, d)"
      by (cases "scan e b (sort names) []")
    have ex': "path_exists e' (base_dir_of e')" using True by (simp add: b' px)
    have ex: "path_exists e (base_dir_of e)" using True by (simp add: b_def)
    have "main e' = (if d = []
        then ([Os_exists b, Os_listdir b] @ t @ [Print No_data], Sys_exit 1)
        else ([Os_exists b, Os_listdir b] @ t @ fst (report d), snd (report d)))"
      using main_listed [of e' names' t d] ex' l' td sc so unfolding b' by simp
    moreover have "main e = (if d = []
        then ([Os_exists b, Os_listdir b] @ t @ [Print No_data], Sys_exit 1)
        else ([Os_exists b, Os_listdir b] @ t @ fst (report d), snd (report d)))"
      using main_listed [of e names t d] ex l td unfolding b_def [symmetric] by simp
    ultimately show ?thesis by simp
  qed
  moreover have "entities e b names' = entities e b names"
    using assms(2) by (rule entities_cong)
  moreover have "sorted_wrt (<) (entities e b names)"
    using entities_sorted [of e b names] by (simp add: strict_sorted_iff)
  moreover have "apps s = entities e b names @ [''Average''] \<and> length (values' s) = length (apps s)"
    if "summarise (snd (scan e b (sort names) [])) = Inr s" for s
    using summarise_apps [OF that] by (simp add: sorted_keys_scan)
  ultimately show ?thesis
    unfolding e'_def b_def by blast
qed

theorem main_listing_order_witness:
  "main ((results_env demo_listing)\<lparr>listdir :=
           (listdir (results_env demo_listing))(''r'' := Inr (rev demo_listing))\<rparr>)
     = main (results_env demo_listing)
   \<and> entities (results_env demo_listing) ''r'' (rev demo_listing) = [''bfs_gnutella31'', ''x'']
   \<and> sorted_wrt (<) [''bfs_gnutella31'', ''x'']"
proof -
  have m: "mset (rev demo_listing) = mset demo_listing" by simp
  have l: "listdir (results_env demo_listing) (base_dir_of (results_env demo_listing))
      = Inr demo_listing"
    by (simp add: results_env_base)
  show ?thesis
    using main_listing_order [OF l m]
    by (simp only: results_env_base demo_entities simp_thms)
qed

end
